theory Spec2Isabelle
  imports
    Complex_Main
    "HOL-Library.Word"
    "HOL-Library.Char_ord"
    "HOL-Library.List_Lexorder"
    "HOL-Library.Product_Lexorder"
    "HOL-Library.Multiset"
begin

chapter \<open>Timestamp recognition and voting (PNG\_timestamp\_extract.py)\<close>

text \<open>
  A shallow embedding of the timestamp parser, the banner locator and the candidate
  selection of \<^verbatim>\<open>src/PNG_timestamp_extract.py\<close>.

  Conventions of the embedding.
  \<^item> A Python \<^verbatim>\<open>str\<close> is a \<^typ>\<open>string\<close>: a list of characters with code points below
    256. On this range \<^verbatim>\<open>\d\<close> is \<^verbatim>\<open>0-9\<close>, and both \<^verbatim>\<open>\s\<close> and \<^verbatim>\<open>str.strip\<close> use the
    white space set \<^verbatim>\<open>09-0D, 1C-1F, 20, 85, A0\<close>. The replacements of the em dash, the en
    dash and the four non-ASCII slash variants concern code points outside this range.
  \<^item> A Python \<^verbatim>\<open>float\<close> is a finite IEEE double, a mantissa and a binary exponent;
    a decimal constant of the source is the double that Python reads it as, sums and
    differences are rounded to 53 bits, ties to even, and comparisons compare the values.
    Infinities, not-a-number and overflow are left out.
  \<^item> An exception is a value \<open>Inl e\<close> of the type \<open>py_error + 'a\<close>.
  \<^item> The computer-vision and OCR calls (\<^verbatim>\<open>cv2\<close>, \<^verbatim>\<open>pytesseract\<close>) are parameters of
    the functions that use them. Debug output (files written) is left out.
\<close>

section \<open>Errors\<close>

datatype py_error = ValueError | IndexError

definition bind_err :: "py_error + 'a \<Rightarrow> ('a \<Rightarrow> py_error + 'b) \<Rightarrow> py_error + 'b" where
  "bind_err r f = (case r of Inl e \<Rightarrow> Inl e | Inr x \<Rightarrow> f x)"

section \<open>Characters and strings\<close>

definition newline :: char where
  "newline = CHR 0x0A"

definition is_digit :: "char \<Rightarrow> bool" where
  "is_digit c = (c \<in> set ''0123456789'')"

definition non_digit :: "char \<Rightarrow> bool" where
  "non_digit c = (\<not> is_digit c)"

definition is_space :: "char \<Rightarrow> bool" where
  "is_space c = (c \<in> set [CHR 0x09, CHR 0x0A, CHR 0x0B, CHR 0x0C, CHR 0x0D,
                            CHR 0x1C, CHR 0x1D, CHR 0x1E, CHR 0x1F, CHR 0x20,
                            CHR 0x85, CHR 0xA0])"

definition any_char :: "char \<Rightarrow> bool" where
  \<comment> \<open>the dot of a regular expression: everything but the line feed\<close>
  "any_char c = (c \<noteq> newline)"

definition is_char :: "char \<Rightarrow> char \<Rightarrow> bool" where
  "is_char a c = (c = a)"

definition colon_or_space :: "char \<Rightarrow> bool" where
  \<comment> \<open>the class \<^verbatim>\<open>[:\s]\<close>\<close>
  "colon_or_space c = (c = CHR '':'' \<or> is_space c)"

definition space_or_T :: "char \<Rightarrow> bool" where
  \<comment> \<open>the class \<^verbatim>\<open>[ T]\<close>\<close>
  "space_or_T c = (c = CHR '' '' \<or> c = CHR ''T'')"

definition slash_like :: "char \<Rightarrow> bool" where
  \<comment> \<open>\<^verbatim>\<open>_SLASH_LIKE\<close>, its members below code point 256\<close>
  "slash_like c = (c = CHR ''/'' \<or> c = CHR 0x5C)"

definition replace_char :: "char \<Rightarrow> char \<Rightarrow> string \<Rightarrow> string" where
  \<comment> \<open>\<^verbatim>\<open>str.replace\<close> of one character by one character\<close>
  "replace_char a b s = map (\<lambda>c. if c = a then b else c) s"

definition strip :: "string \<Rightarrow> string" where
  "strip s = rev (dropWhile is_space (rev (dropWhile is_space s)))"

definition digit_value :: "char \<Rightarrow> int" where
  "digit_value c = int (of_char c) - 48"

definition py_int :: "string \<Rightarrow> int" where
  \<comment> \<open>\<^verbatim>\<open>int(str)\<close>; it is only applied to groups matched by \<^verbatim>\<open>\d\<close>\<close>
  "py_int s = foldl (\<lambda>a c. 10 * a + digit_value c) 0 s"

section \<open>Regular expressions\<close>

text \<open>
  Every pattern of the source is a sequence of quantified character classes, with
  capturing groups around some of them and one lookahead. \<open>Rep p lo hi greedy\<close> is the
  class \<open>p\<close> repeated at least \<open>lo\<close> and at most \<open>hi\<close> times (\<open>None\<close>: unbounded), greedy or
  lazy; \<open>Open\<close> and \<open>Close\<close> are the parentheses of a group; \<open>Ahead p\<close> is
  \<^verbatim>\<open>(?=[p]|$)\<close>; \<open>Eol\<close> is \<^verbatim>\<open>$\<close>.
\<close>

datatype atom =
    Rep "char \<Rightarrow> bool" nat "nat option" bool
  | Open
  | Close
  | Ahead "char \<Rightarrow> bool"
  | Eol

definition lit :: "char \<Rightarrow> atom" where
  "lit c = Rep (is_char c) 1 (Some 1) True"

definition times :: "(char \<Rightarrow> bool) \<Rightarrow> nat \<Rightarrow> atom" where
  "times p n = Rep p n (Some n) True"

definition upto_times :: "(char \<Rightarrow> bool) \<Rightarrow> nat \<Rightarrow> nat \<Rightarrow> atom" where
  "upto_times p lo hi = Rep p lo (Some hi) True"

definition at_eol :: "string \<Rightarrow> bool" where
  \<comment> \<open>\<^verbatim>\<open>$\<close>: the end of the string, or just before a line feed that ends it\<close>
  "at_eol s = (s = [] \<or> s = [newline])"

fun run_length :: "(char \<Rightarrow> bool) \<Rightarrow> nat option \<Rightarrow> string \<Rightarrow> nat" where
  "run_length p hi [] = 0"
| "run_length p hi (c # cs) =
     (if hi = Some 0 then 0
      else if p c then Suc (run_length p (map_option (\<lambda>h. h - 1) hi) cs)
      else 0)"

definition counts :: "nat \<Rightarrow> nat \<Rightarrow> bool \<Rightarrow> nat list" where
  \<comment> \<open>the repetition counts in the order in which backtracking tries them\<close>
  "counts lo n greedy = (if greedy then rev [lo ..< Suc n] else [lo ..< Suc n])"

fun first_some :: "('a \<Rightarrow> 'b option) \<Rightarrow> 'a list \<Rightarrow> 'b option" where
  "first_some f [] = None"
| "first_some f (x # xs) = (case f x of Some y \<Rightarrow> Some y | None \<Rightarrow> first_some f xs)"

fun rmatch :: "atom list \<Rightarrow> string \<Rightarrow> string option \<Rightarrow> string list
                 \<Rightarrow> (string list \<times> string) option" where
  \<comment> \<open>pattern, input left, text of the open group, closed groups; the result is the
      groups and the input after the match\<close>
  "rmatch [] s g caps = Some (caps, s)"
| "rmatch (Open # r) s g caps = rmatch r s (Some []) caps"
| "rmatch (Close # r) s g caps =
     rmatch r s None (caps @ [case g of Some b \<Rightarrow> b | None \<Rightarrow> []])"
| "rmatch (Ahead p # r) s g caps =
     (if (s \<noteq> [] \<and> p (hd s)) \<or> at_eol s then rmatch r s g caps else None)"
| "rmatch (Eol # r) s g caps = (if at_eol s then rmatch r s g caps else None)"
| "rmatch (Rep p lo hi greedy # r) s g caps =
     (let n = run_length p hi s in
      if n < lo then None
      else first_some
             (\<lambda>k. rmatch r (drop k s) (map_option (\<lambda>b. b @ take k s) g) caps)
             (counts lo n greedy))"

definition re_match :: "atom list \<Rightarrow> string \<Rightarrow> (string list \<times> string) option" where
  "re_match pat s = rmatch pat s None []"

fun re_search :: "atom list \<Rightarrow> string \<Rightarrow> (string list \<times> string) option" where
  \<comment> \<open>the leftmost match; the second component is the input after the match\<close>
  "re_search pat [] = re_match pat []"
| "re_search pat (c # cs) =
     (case re_match pat (c # cs) of Some m \<Rightarrow> Some m | None \<Rightarrow> re_search pat cs)"

function re_sub :: "atom list \<Rightarrow> (string list \<Rightarrow> string) \<Rightarrow> string \<Rightarrow> string" where
  \<comment> \<open>\<^verbatim>\<open>re.sub\<close> with a replacement function of the groups. No pattern given to it in
      this file matches the empty string; an empty match copies one character.\<close>
  "re_sub pat f [] = (case re_match pat [] of Some (caps, _) \<Rightarrow> f caps | None \<Rightarrow> [])"
| "re_sub pat f (c # cs) =
     (case re_match pat (c # cs) of
        None \<Rightarrow> c # re_sub pat f cs
      | Some (caps, rest) \<Rightarrow>
          if length rest < length (c # cs) then f caps @ re_sub pat f rest
          else f caps @ c # re_sub pat f cs)"
  by pat_completeness auto
termination
  by (relation "measure (\<lambda>(pat, f, s). length s)") auto

section \<open>Normalisation and triplet repair\<close>

definition grp :: "atom list \<Rightarrow> atom list" where
  "grp xs = Open # xs @ [Close]"

definition SLASH_RE :: "atom list" where
  "SLASH_RE = [times slash_like 1]"

definition WS_RUN :: "atom list" where
  \<comment> \<open>\<^verbatim>\<open>\s+\<close>\<close>
  "WS_RUN = [Rep is_space 1 None True]"

definition COLON_RUN :: "atom list" where
  \<comment> \<open>\<^verbatim>\<open>:{2,}\<close>\<close>
  "COLON_RUN = [Rep (is_char CHR '':'') 2 None True]"

definition DASH_RUN :: "atom list" where
  \<comment> \<open>\<^verbatim>\<open>-{2,}\<close>\<close>
  "DASH_RUN = [Rep (is_char CHR ''-'') 2 None True]"

definition TRIPLET_FIELD :: "atom list" where
  \<comment> \<open>\<^verbatim>\<open>([:\s])(\d{3})(?=[:\s]|$)\<close>\<close>
  "TRIPLET_FIELD = grp [times colon_or_space 1] @ grp [times is_digit 3] @ [Ahead colon_or_space]"

definition triplet_fix :: "string list \<Rightarrow> string" where
  \<comment> \<open>the inner function \<^verbatim>\<open>_fix\<close>; the groups are the separator and the three digits\<close>
  "triplet_fix caps =
     (case caps of
        [sep, tri] \<Rightarrow>
          (let last2 = drop (length tri - 2) tri in
           if tri \<noteq> [] \<and> hd tri \<in> set ''10'' \<and> last2 \<noteq> [] \<and> list_all is_digit last2
              \<and> 0 \<le> py_int last2 \<and> py_int last2 \<le> 59
           then sep @ last2 else sep @ tri)
      | _ \<Rightarrow> concat caps)"

definition repair_time_triplets :: "string \<Rightarrow> string" where
  "repair_time_triplets s = re_sub TRIPLET_FIELD triplet_fix s"

definition confusables :: "string \<Rightarrow> string" where
  \<comment> \<open>the chain of \<^verbatim>\<open>replace\<close> calls, letters to digits\<close>
  "confusables t =
     replace_char CHR ''B'' CHR ''8'' (replace_char CHR ''S'' CHR ''5''
       (replace_char CHR ''l'' CHR ''1'' (replace_char CHR ''I'' CHR ''1''
         (replace_char CHR ''o'' CHR ''0'' (replace_char CHR ''O'' CHR ''0'' t)))))"

definition normalize_ocr :: "string \<Rightarrow> string" where
  "normalize_ocr s =
     (if s = [] then []
      else
        let t = strip (replace_char newline CHR '' '' s);
            t = confusables t;
            t = re_sub SLASH_RE (\<lambda>_. []) t;
            t = re_sub WS_RUN (\<lambda>_. '' '') t;
            t = re_sub COLON_RUN (\<lambda>_. '':'') t;
            t = re_sub DASH_RUN (\<lambda>_. ''-'') t
        in t)"

section \<open>Dates\<close>

datatype datetime = Datetime int int int int int int

type_synonym parts = "int \<times> int \<times> int \<times> int \<times> int \<times> int"

definition is_leap :: "int \<Rightarrow> bool" where
  "is_leap y = (y mod 4 = 0 \<and> (y mod 100 \<noteq> 0 \<or> y mod 400 = 0))"

definition days_in_month :: "int \<Rightarrow> int \<Rightarrow> int" where
  "days_in_month y m =
     (if m = 2 then (if is_leap y then 29 else 28)
      else if m = 4 \<or> m = 6 \<or> m = 9 \<or> m = 11 then 30 else 31)"

definition valid_datetime :: "int \<Rightarrow> int \<Rightarrow> int \<Rightarrow> int \<Rightarrow> int \<Rightarrow> int \<Rightarrow> bool" where
  "valid_datetime y M d h m s =
     (1 \<le> y \<and> y \<le> 9999 \<and> 1 \<le> M \<and> M \<le> 12 \<and> 1 \<le> d \<and> d \<le> days_in_month y M
      \<and> 0 \<le> h \<and> h \<le> 23 \<and> 0 \<le> m \<and> m \<le> 59 \<and> 0 \<le> s \<and> s \<le> 59)"

definition py_datetime :: "int \<Rightarrow> int \<Rightarrow> int \<Rightarrow> int \<Rightarrow> int \<Rightarrow> int \<Rightarrow> datetime option" where
  \<comment> \<open>\<^verbatim>\<open>dt.datetime(y, M, d, h, m, s)\<close>; \<open>None\<close> is its \<^verbatim>\<open>ValueError\<close>\<close>
  "py_datetime y M d h m s =
     (if valid_datetime y M d h m s then Some (Datetime y M d h m s) else None)"

definition dt_fields :: "datetime \<Rightarrow> int list" where
  "dt_fields t = (case t of Datetime y M d h m s \<Rightarrow> [y, M, d, h, m, s])"

definition parts_fields :: "parts \<Rightarrow> int list" where
  "parts_fields p = (case p of (y, M, d, h, m, s) \<Rightarrow> [y, M, d, h, m, s])"

definition digit_char :: "int \<Rightarrow> char" where
  \<comment> \<open>the character of a digit from 0 to 9\<close>
  "digit_char n = ''0123456789'' ! nat n"

definition pad2 :: "int \<Rightarrow> string" where
  "pad2 n = [digit_char (n div 10 mod 10), digit_char (n mod 10)]"

definition pad4 :: "int \<Rightarrow> string" where
  "pad4 n = [digit_char (n div 1000 mod 10), digit_char (n div 100 mod 10),
             digit_char (n div 10 mod 10), digit_char (n mod 10)]"

definition format_fields :: "int \<Rightarrow> int \<Rightarrow> int \<Rightarrow> int \<Rightarrow> int \<Rightarrow> int \<Rightarrow> string" where
  \<comment> \<open>the layout \<^verbatim>\<open>%Y-%m-%d %H:%M:%S\<close>, zero padded\<close>
  "format_fields y M d h m s =
     pad4 y @ ''-'' @ pad2 M @ ''-'' @ pad2 d @ '' '' @ pad2 h @ '':'' @ pad2 m @ '':'' @ pad2 s"

definition strftime :: "datetime \<Rightarrow> string" where
  "strftime t = (case t of Datetime y M d h m s \<Rightarrow> format_fields y M d h m s)"

section \<open>The timestamp parser\<close>

definition YEAR :: "atom list" where
  \<comment> \<open>\<^verbatim>\<open>(20\d{2})\<close>\<close>
  "YEAR = grp [lit CHR ''2'', lit CHR ''0'', times is_digit 2]"

definition D2 :: "atom list" where
  \<comment> \<open>\<^verbatim>\<open>(\d{2})\<close>\<close>
  "D2 = grp [times is_digit 2]"

definition D12 :: "atom list" where
  \<comment> \<open>\<^verbatim>\<open>(\d{1,2})\<close>\<close>
  "D12 = grp [upto_times is_digit 1 2]"

definition DATE_RE :: "atom list" where
  \<comment> \<open>\<^verbatim>\<open>(20\d{2})\D{0,4}(\d{2})\D{0,4}(\d{2})\<close>\<close>
  "DATE_RE = YEAR @ [upto_times non_digit 0 4] @ D2 @ [upto_times non_digit 0 4] @ D2"

definition TIME_RE :: "atom list" where
  \<comment> \<open>\<^verbatim>\<open>(\d{1,2})\s*:\s*(\d{2})\s*:\s*(\d{2})\<close>\<close>
  "TIME_RE = D12 @ [Rep is_space 0 None True, lit CHR '':'', Rep is_space 0 None True] @ D2
             @ [Rep is_space 0 None True, lit CHR '':'', Rep is_space 0 None True] @ D2"

definition FLEX_PAT :: "atom list" where
  \<comment> \<open>\<^verbatim>\<open>(20\d{2})\D{0,4}(\d{2})\D{0,4}(\d{2})\D{0,6}(\d{1,2})\D{0,4}(\d{2})\D{0,4}(\d{2})\<close>\<close>
  "FLEX_PAT = YEAR @ [upto_times non_digit 0 4] @ D2 @ [upto_times non_digit 0 4] @ D2
              @ [upto_times non_digit 0 6] @ D12 @ [upto_times non_digit 0 4] @ D2
              @ [upto_times non_digit 0 4] @ D2"

definition DATE_THEN_TIME_1OR2H :: "atom list" where
  \<comment> \<open>\<^verbatim>\<open>(20\d{2})\D{0,5}(\d{2})\D{0,5}(\d{2}).{0,12}?(\d{1,2})\D{0,3}(\d{2})\D{0,3}(\d{2})\<close>\<close>
  "DATE_THEN_TIME_1OR2H =
     YEAR @ [upto_times non_digit 0 5] @ D2 @ [upto_times non_digit 0 5] @ D2
     @ [Rep any_char 0 (Some 12) False] @ D12 @ [upto_times non_digit 0 3] @ D2
     @ [upto_times non_digit 0 3] @ D2"

definition TS_STRICT :: "atom list" where
  \<comment> \<open>\<^verbatim>\<open>(20\d{2})-(\d{2})-(\d{2})[ T](\d{2}):(\d{2}):(\d{2})\<close>\<close>
  "TS_STRICT = YEAR @ [lit CHR ''-''] @ D2 @ [lit CHR ''-''] @ D2 @ [times space_or_T 1] @ D2
               @ [lit CHR '':''] @ D2 @ [lit CHR '':''] @ D2"

definition TS_COMPACT :: "atom list" where
  \<comment> \<open>\<^verbatim>\<open>(20\d{2})(\d{2})(\d{2})[ T]?(\d{2})(\d{2})(\d{2})\<close>\<close>
  "TS_COMPACT = YEAR @ D2 @ D2 @ [upto_times space_or_T 0 1] @ D2 @ D2 @ D2"

definition TS_SEMI :: "atom list" where
  \<comment> \<open>\<^verbatim>\<open>(20\d{2})-(\d{2})-(\d{2}).{0,3}(\d{2}).{0,3}(\d{2}).{0,3}(\d{2})\<close>\<close>
  "TS_SEMI = YEAR @ [lit CHR ''-''] @ D2 @ [lit CHR ''-''] @ D2 @ [upto_times any_char 0 3] @ D2
             @ [upto_times any_char 0 3] @ D2 @ [upto_times any_char 0 3] @ D2"

definition TS_PATTERNS :: "atom list list" where
  "TS_PATTERNS = [TS_STRICT, TS_COMPACT, TS_SEMI]"

definition PAIR_RE :: "atom list" where
  \<comment> \<open>\<^verbatim>\<open>(\d\D?\d)\<close>\<close>
  "PAIR_RE = grp [times is_digit 1, upto_times non_digit 0 1, times is_digit 1]"

definition PAIRIFY_RE :: "atom list" where
  \<comment> \<open>\<^verbatim>\<open>^\s*(\d)\D?(\d)\s*$\<close>, used with \<^verbatim>\<open>re.match\<close>, which anchors at the start\<close>
  "PAIRIFY_RE = [Rep is_space 0 None True] @ grp [times is_digit 1] @ [upto_times non_digit 0 1]
                @ grp [times is_digit 1] @ [Rep is_space 0 None True, Eol]"

definition fields_result :: "int \<Rightarrow> int \<Rightarrow> int \<Rightarrow> int \<Rightarrow> int \<Rightarrow> int \<Rightarrow> (datetime \<times> parts) option" where
  \<comment> \<open>\<^verbatim>\<open>try: return dt.datetime(...), (...)\<close>; \<open>None\<close> when the constructor raises\<close>
  "fields_result y M d h m s =
     map_option (\<lambda>t. (t, (y, M, d, h, m, s))) (py_datetime y M d h m s)"

definition or_else :: "py_error + 'a option \<Rightarrow> py_error + 'a option \<Rightarrow> py_error + 'a option" where
  "or_else r nxt = (case r of Inl e \<Rightarrow> Inl e | Inr (Some x) \<Rightarrow> Inr (Some x) | Inr None \<Rightarrow> nxt)"

definition pairify :: "string \<Rightarrow> py_error + int" where
  "pairify x =
     (case re_match PAIRIFY_RE x of
        None \<Rightarrow> Inl ValueError
      | Some (caps, _) \<Rightarrow> (case caps of [a, b] \<Rightarrow> Inr (py_int (a @ b)) | _ \<Rightarrow> Inl IndexError))"

fun next_pairs :: "nat \<Rightarrow> string \<Rightarrow> py_error + int list option" where
  \<comment> \<open>\<open>n\<close> rounds of \<^verbatim>\<open>next_pair\<close>, from the input left after the year\<close>
  "next_pairs 0 s = Inr (Some [])"
| "next_pairs (Suc n) s =
     (case re_search PAIR_RE s of
        None \<Rightarrow> Inr None
      | Some (caps, rest) \<Rightarrow>
          (case caps of
             [g] \<Rightarrow> bind_err (pairify g)
                      (\<lambda>v. bind_err (next_pairs n rest) (\<lambda>r. Inr (map_option ((#) v) r)))
           | _ \<Rightarrow> Inl IndexError))"

definition grab_fields_loose :: "string \<Rightarrow> py_error + (datetime \<times> parts) option" where
  "grab_fields_loose t =
     (case re_search YEAR t of
        None \<Rightarrow> Inr None
      | Some (ycaps, rest) \<Rightarrow>
          (case ycaps of
             [yg] \<Rightarrow>
               bind_err (next_pairs 5 rest)
                 (\<lambda>r. case r of
                         None \<Rightarrow> Inr None
                       | Some fs \<Rightarrow>
                           (case fs of
                              [M, d, h, m, s] \<Rightarrow> Inr (fields_result (py_int yg) M d h m s)
                            | _ \<Rightarrow> Inl ValueError))
           | _ \<Rightarrow> Inl IndexError))"

definition six_fields :: "string list \<Rightarrow> py_error + (datetime \<times> parts) option" where
  \<comment> \<open>\<^verbatim>\<open>y, M, d, h, m_, s_ = map(int, m.groups())\<close>, then the constructor\<close>
  "six_fields caps =
     (case map py_int caps of
        [y, M, d, h, m, s] \<Rightarrow> Inr (fields_result y M d h m s)
      | _ \<Rightarrow> Inl ValueError)"

definition stage_search :: "atom list \<Rightarrow> string \<Rightarrow> py_error + (datetime \<times> parts) option" where
  "stage_search pat t =
     (case re_search pat t of None \<Rightarrow> Inr None | Some (caps, _) \<Rightarrow> six_fields caps)"

definition stage_anchor :: "string \<Rightarrow> py_error + (datetime \<times> parts) option" where
  \<comment> \<open>stage (0): the date, then a time with colons in what follows it\<close>
  "stage_anchor t =
     (case re_search DATE_RE t of
        None \<Rightarrow> Inr None
      | Some (dcaps, rest) \<Rightarrow>
          (case map py_int dcaps of
             [y, M, d] \<Rightarrow>
               (case re_search TIME_RE rest of
                  None \<Rightarrow> Inr None
                | Some (tcaps, _) \<Rightarrow>
                    (case map py_int tcaps of
                       [h, m, s] \<Rightarrow> Inr (fields_result y M d h m s)
                     | _ \<Rightarrow> Inl ValueError))
           | _ \<Rightarrow> Inl ValueError))"

fun strict_fallbacks :: "atom list list \<Rightarrow> string \<Rightarrow> py_error + (datetime \<times> parts) option" where
  "strict_fallbacks [] t = Inr None"
| "strict_fallbacks (pat # pats) t = or_else (stage_search pat t) (strict_fallbacks pats t)"

definition parse_timestamp_flex :: "string \<Rightarrow> py_error + (datetime \<times> parts) option" where
  "parse_timestamp_flex raw =
     (if raw = [] then Inr None
      else
        let t = repair_time_triplets (normalize_ocr raw) in
        or_else (stage_anchor t)
       (or_else (stage_search DATE_THEN_TIME_1OR2H t)
       (or_else (grab_fields_loose t)
       (or_else (stage_search FLEX_PAT t)
                (strict_fallbacks TS_PATTERNS t)))))"

section \<open>Products of an integer and a float constant\<close>

text \<open>
  \<^verbatim>\<open>int(n * c)\<close> for a non-negative Python integer \<open>n\<close> below \<open>2^53\<close> and a double
  \<open>c = m / 2^e\<close>: the exact product is rounded to 53 significant bits, ties to even, and
  then truncated.
\<close>

fun bitlen :: "nat \<Rightarrow> nat" where
  "bitlen n = (if n = 0 then 0 else Suc (bitlen (n div 2)))"

definition round_to_53 :: "nat \<Rightarrow> nat" where
  "round_to_53 N =
     (let b = bitlen N in
      if b \<le> 53 then N
      else
        let sh = b - 53; q = N div 2 ^ sh; r = N mod 2 ^ sh; half = 2 ^ (sh - 1);
            q' = (if r > half \<or> (r = half \<and> odd q) then q + 1 else q)
        in q' * 2 ^ sh)"

definition float_mul_int :: "nat \<Rightarrow> nat \<Rightarrow> nat \<Rightarrow> nat" where
  "float_mul_int n m e = round_to_53 (n * m) div 2 ^ e"

definition times_0_25 :: "nat \<Rightarrow> nat" where
  "times_0_25 n = float_mul_int n 1 2"

definition times_0_09 :: "nat \<Rightarrow> nat" where
  "times_0_09 n = float_mul_int n 3242591731706757 55"

definition times_0_70 :: "nat \<Rightarrow> nat" where
  "times_0_70 n = float_mul_int n 3152519739159347 52"

definition times_0_20 :: "nat \<Rightarrow> nat" where
  "times_0_20 n = float_mul_int n 3602879701896397 54"

definition times_0_80 :: "nat \<Rightarrow> nat" where
  "times_0_80 n = float_mul_int n 3602879701896397 52"

definition times_0_40 :: "nat \<Rightarrow> nat" where
  "times_0_40 n = float_mul_int n 3602879701896397 53"

section \<open>The banner locator\<close>

type_synonym image = "8 word list list"
  \<comment> \<open>a grey image: its rows, each a list of pixels\<close>

definition width :: "image \<Rightarrow> nat" where
  "width im = (case im of [] \<Rightarrow> 0 | r # _ \<Rightarrow> length r)"

definition row_is_dark :: "8 word list \<Rightarrow> bool" where
  \<comment> \<open>the mean of the row is below 60; the mean of an empty row is not a number\<close>
  "row_is_dark r = (sum_list (map unat r) < 60 * length r)"

fun moving_groups_from :: "int \<Rightarrow> int \<Rightarrow> int list \<Rightarrow> (int \<times> int) list" where
  "moving_groups_from start prev [] = [(start, prev)]"
| "moving_groups_from start prev (i # idxs) =
     (if i = prev + 1 then moving_groups_from start i idxs
      else (start, prev) # moving_groups_from i i idxs)"

definition moving_groups :: "int list \<Rightarrow> (int \<times> int) list" where
  "moving_groups idxs = (case idxs of [] \<Rightarrow> [] | i # r \<Rightarrow> moving_groups_from i i r)"

definition better_run :: "(int \<times> int) option \<Rightarrow> int \<times> int \<Rightarrow> (int \<times> int) option" where
  \<comment> \<open>the body of the loop over the runs\<close>
  "better_run best run =
     (case run of (y0, y1) \<Rightarrow>
        if y0 \<le> 5 \<and> (y1 - y0 + 1) \<ge> 10 then
          (case best of
             None \<Rightarrow> Some (y0, y1)
           | Some (b0, b1) \<Rightarrow> if (y1 - y0) > (b1 - b0) then Some (y0, y1) else best)
        else best)"

definition dark_rows :: "image \<Rightarrow> int list" where
  \<comment> \<open>the indices of the dark rows among the top quarter of the rows\<close>
  "dark_rows gray =
     (let top = take (times_0_25 (length gray)) gray in
      map int (filter (\<lambda>i. row_is_dark (top ! i)) [0 ..< length top]))"

definition best_run :: "image \<Rightarrow> (int \<times> int) option" where
  "best_run gray = foldl better_run None (moving_groups (dark_rows gray))"

definition find_top_black_banner :: "image \<Rightarrow> int \<times> int" where
  "find_top_black_banner gray =
     (let h = int (length gray);
          (y0, y1) = (case best_run gray of
                        None \<Rightarrow> (0, max 16 (int (times_0_09 (length gray))))
                      | Some b \<Rightarrow> b)
      in (max 0 (y0 - 2), min h (y1 + 2)))"

section \<open>Doubles\<close>

text \<open>
  \<open>Double m e\<close> is the double of value \<open>m * 2^e\<close>. The sum of two doubles is their exact
  sum rounded to 53 significant bits, ties to even, as IEEE 754 prescribes for the
  arithmetic of Python's \<^verbatim>\<open>float\<close>.
\<close>

datatype double = Double int int

definition pow2 :: "int \<Rightarrow> real" where
  "pow2 e = (if 0 \<le> e then 2 ^ nat e else 1 / 2 ^ nat (- e))"

fun valof :: "double \<Rightarrow> real" where
  "valof (Double m e) = real_of_int m * pow2 e"

function ibitlen :: "int \<Rightarrow> nat" where
  \<comment> \<open>the number of bits of a positive integer\<close>
  "ibitlen n = (if n \<le> 0 then 0 else Suc (ibitlen (n div 2)))"
  by pat_completeness auto
termination
  by (relation "measure nat") auto

declare ibitlen.simps [simp del]

definition round_double :: "int \<Rightarrow> int \<Rightarrow> double" where
  \<comment> \<open>the exact value \<open>M * 2^E\<close> rounded to 53 significant bits, ties to even\<close>
  "round_double M E =
     (let a = \<bar>M\<bar>; b = ibitlen a in
      if b \<le> 53 then Double M E
      else
        let sh = b - 53; q = a div 2 ^ sh; r = a mod 2 ^ sh; half = 2 ^ (sh - 1);
            q' = (if r > half \<or> (r = half \<and> odd q) then q + 1 else q)
        in Double (sgn M * q') (E + int sh))"

fun fadd :: "double \<Rightarrow> double \<Rightarrow> double" where
  \<comment> \<open>\<^verbatim>\<open>x + y\<close>\<close>
  "fadd (Double m1 e1) (Double m2 e2) =
     (let E = min e1 e2 in round_double (m1 * 2 ^ nat (e1 - E) + m2 * 2 ^ nat (e2 - E)) E)"

fun fneg :: "double \<Rightarrow> double" where
  "fneg (Double m e) = Double (- m) e"

definition fsub :: "double \<Rightarrow> double \<Rightarrow> double" where
  \<comment> \<open>\<^verbatim>\<open>x - y\<close>\<close>
  "fsub x y = fadd x (fneg y)"

definition dzero :: double where
  "dzero = Double 0 0"

text \<open>
  The constants of the source, each with the mantissa and the exponent of the double that
  Python reads the decimal text as (\<^verbatim>\<open>float.as_integer_ratio\<close>).
\<close>

definition d_3_2 :: double where "d_3_2 = Double 3602879701896397 (- 50)"
definition d_1_4 :: double where "d_1_4 = Double 3152519739159347 (- 51)"
definition d_minus_1_0 :: double where "d_minus_1_0 = Double (- 1) 0"
definition d_minus_1_5 :: double where "d_minus_1_5 = Double (- 3) (- 1)"
definition d_3_6 :: double where "d_3_6 = Double 8106479329266893 (- 51)"
definition d_2_4 :: double where "d_2_4 = Double 5404319552844595 (- 51)"
definition d_1_2 :: double where "d_1_2 = Double 5404319552844595 (- 52)"
definition d_0_8 :: double where "d_0_8 = Double 3602879701896397 (- 52)"
definition d_minus_1_2 :: double where "d_minus_1_2 = Double (- 5404319552844595) (- 52)"
definition d_0_4 :: double where "d_0_4 = Double 3602879701896397 (- 53)"
definition d_0_6 :: double where "d_0_6 = Double 5404319552844595 (- 53)"
definition d_0_2 :: double where "d_0_2 = Double 3602879701896397 (- 54)"
definition d_0_5 :: double where "d_0_5 = Double 1 (- 1)"
definition d_minus_1e9 :: double where "d_minus_1e9 = Double (- 1000000000) 0"

section \<open>Weights\<close>

definition ROI_WEIGHT :: "string \<Rightarrow> double option" where
  "ROI_WEIGHT = map_of [(''left70'', d_3_2), (''full'', d_1_4), (''mid60'', d_minus_1_0),
                        (''right60'', d_minus_1_5)]"

definition VARIANT_WEIGHT :: "string \<Rightarrow> double option" where
  "VARIANT_WEIGHT = map_of
     [(''cubic|morph_inv'', d_3_6), (''cubic|blur_otsu_inv'', d_2_4), (''cubic|otsu_inv'', d_1_2),
      (''cubic|adapt_inv'', d_0_8), (''nearest|otsu_inv'', d_minus_1_0),
      (''nearest|adapt_inv'', d_minus_1_2)]"

definition get_or :: "('k \<Rightarrow> 'v option) \<Rightarrow> 'k \<Rightarrow> 'v \<Rightarrow> 'v" where
  \<comment> \<open>\<^verbatim>\<open>dict.get(key, default)\<close>\<close>
  "get_or m k d = (case m k of Some v \<Rightarrow> v | None \<Rightarrow> d)"

definition TRIPLET_LEFT :: "atom list" where
  \<comment> \<open>\<^verbatim>\<open>:[0-9]{3}(?=[:\s]|$)\<close>\<close>
  "TRIPLET_LEFT = [lit CHR '':'', times is_digit 3, Ahead colon_or_space]"

definition TIME_TAIL :: "atom list" where
  \<comment> \<open>\<^verbatim>\<open>:[0-9]{2}\s*:\s*[0-9]{2}\<close>\<close>
  "TIME_TAIL = [lit CHR '':'', times is_digit 2, Rep is_space 0 None True, lit CHR '':'',
                Rep is_space 0 None True, times is_digit 2]"

definition rough_layout_bonus :: "string \<Rightarrow> double" where
  "rough_layout_bonus raw =
     (let t = normalize_ocr raw;
          c = count_list t CHR '':'';
          bonus = dzero;
          bonus = (if 2 \<le> c \<and> c \<le> 3 then fadd bonus d_0_4 else bonus);
          bonus = (if re_search TRIPLET_LEFT t \<noteq> None then fsub bonus d_0_6 else bonus);
          bonus = (if re_search TIME_TAIL t \<noteq> None then fadd bonus d_0_2 else bonus)
      in bonus)"

definition candidate_weight :: "string \<Rightarrow> string \<Rightarrow> string \<Rightarrow> double" where
  "candidate_weight roi_tag var_tag raw =
     (let base = fadd (get_or ROI_WEIGHT roi_tag dzero) (get_or VARIANT_WEIGHT var_tag dzero)
      in fadd base (rough_layout_bonus raw))"

section \<open>Candidates and selection\<close>

record cand =
  c_dt :: datetime
  c_canon :: string
  c_parts :: parts
  c_raw :: string
  c_roi :: string
  c_var :: string
  c_w :: double

definition c_weight :: "cand \<Rightarrow> real" where
  \<comment> \<open>the value of the weight, which the comparisons of the source compare\<close>
  "c_weight c = valof (c_w c)"

definition PREFERRED_ROIS :: "string set" where
  "PREFERRED_ROIS = {''left70'', ''full''}"

definition PREFERRED_VARS :: "string set" where
  "PREFERRED_VARS = {''cubic|morph_inv'', ''cubic|blur_otsu_inv''}"

fun tally_add :: "('a \<times> double) list \<Rightarrow> 'a \<Rightarrow> double \<Rightarrow> ('a \<times> double) list" where
  \<comment> \<open>\<^verbatim>\<open>tally[v] += x\<close> on a \<^verbatim>\<open>defaultdict(float)\<close>, the keys in insertion order\<close>
  "tally_add [] v x = [(v, fadd dzero x)]"
| "tally_add ((k, t) # r) v x = (if k = v then (k, fadd t x) # r else (k, t) # tally_add r v x)"

definition tally_of :: "('a \<times> double) list \<Rightarrow> ('a \<times> double) list" where
  \<comment> \<open>the loop that sums the positive weights per key\<close>
  "tally_of vws = foldl (\<lambda>t (v, x). if valof x > 0 then tally_add t v x else t) [] vws"

definition top_key :: "('a::linorder \<times> double) list \<Rightarrow> 'a option" where
  \<comment> \<open>\<^verbatim>\<open>sorted(tally.items(), key=lambda kv: (-kv[1], kv[0]))[0][0]\<close>, \<open>None\<close> on an
      empty tally\<close>
  "top_key tally =
     (case sort_key (\<lambda>kv. (- valof (snd kv), fst kv)) tally of
        [] \<Rightarrow> None
      | kv # _ \<Rightarrow> Some (fst kv))"

definition weighted_mode :: "'a::linorder list \<Rightarrow> double list \<Rightarrow> 'a option" where
  "weighted_mode vals weights = top_key (tally_of (zip vals weights))"

definition choose_elite_candidate :: "cand list \<Rightarrow> double \<Rightarrow> cand option" where
  "choose_elite_candidate all_cands elite_margin =
     (case sort_key (\<lambda>c. - c_weight c) all_cands of
        [] \<Rightarrow> None
      | top_c # others \<Rightarrow>
          (let nxt = (case others of [] \<Rightarrow> d_minus_1e9 | c # _ \<Rightarrow> c_w c);
               preferred = (c_roi top_c \<in> PREFERRED_ROIS \<and> c_var top_c \<in> PREFERRED_VARS)
           in if preferred \<and> c_weight top_c \<ge> valof (fadd nxt elite_margin)
              then Some top_c else None))"

definition choose_by_weighted_whole_string :: "cand list \<Rightarrow> datetime option \<times> cand option" where
  "choose_by_weighted_whole_string all_cands =
     (case top_key (tally_of (map (\<lambda>c. (c_canon c, c_w c)) all_cands)) of
        None \<Rightarrow> (None, None)
      | Some best_key \<Rightarrow>
          (case sort_key (\<lambda>c. (- c_weight c, c_roi c))
                  (filter (\<lambda>c. c_canon c = best_key) all_cands) of
             [] \<Rightarrow> (None, None)
           | rep # _ \<Rightarrow> (Some (c_dt rep), Some rep)))"

definition field_columns :: "parts list \<Rightarrow> int list list" where
  \<comment> \<open>\<^verbatim>\<open>list(zip(*parts_list))\<close>: the six columns, or no column for no row\<close>
  "field_columns ps =
     (if ps = [] then [] else map (\<lambda>i. map (\<lambda>p. parts_fields p ! i) ps) [0 ..< 6])"

fun vote_columns :: "int list list \<Rightarrow> double list \<Rightarrow> int list option" where
  \<comment> \<open>the loop over the columns; \<open>None\<close> when a column has no winner\<close>
  "vote_columns [] weights = Some []"
| "vote_columns (col # cols) weights =
     (case weighted_mode col weights of
        None \<Rightarrow> None
      | Some v \<Rightarrow> map_option ((#) v) (vote_columns cols weights))"

definition pick_representative :: "cand list \<Rightarrow> datetime \<Rightarrow> cand option" where
  \<comment> \<open>the loop that scores each candidate, half a point off when it differs from the
      consensus\<close>
  "pick_representative all_cands consensus =
     snd (foldl (\<lambda>(best, rep) c.
                   let score = (if c_dt c = consensus then c_w c else fsub (c_w c) d_0_5)
                   in if valof score > valof best then (score, Some c) else (best, rep))
                (d_minus_1e9, None) all_cands)"

definition choose_by_weighted_fields :: "cand list \<Rightarrow> py_error + (datetime option \<times> cand option)" where
  "choose_by_weighted_fields all_cands =
     (let parts_list = map c_parts all_cands;
          weights = map c_w all_cands
      in case vote_columns (field_columns parts_list) weights of
           None \<Rightarrow> Inr (None, None)
         | Some voted \<Rightarrow>
             (case voted of
                [y, M, d, h, mm, ss] \<Rightarrow>
                  (case py_datetime y M d h mm ss of
                     None \<Rightarrow> Inr (choose_by_weighted_whole_string all_cands)
                   | Some consensus \<Rightarrow>
                       Inr (Some consensus, pick_representative all_cands consensus))
              | _ \<Rightarrow> Inl ValueError))"

fun py_max_by :: "('a \<Rightarrow> real) \<Rightarrow> 'a \<Rightarrow> 'a list \<Rightarrow> 'a" where
  \<comment> \<open>\<^verbatim>\<open>max(xs, key=f)\<close> on a list that is not empty: the first maximal element\<close>
  "py_max_by f best [] = best"
| "py_max_by f best (x # xs) = py_max_by f (if f x > f best then x else best) xs"

definition process_image_select :: "cand list \<Rightarrow> double \<Rightarrow> py_error + (datetime option \<times> string)" where
  \<comment> \<open>the end of \<^verbatim>\<open>process_image\<close>, from the test of \<^verbatim>\<open>all_cands\<close> on\<close>
  "process_image_select all_cands elite_margin =
     (case all_cands of
        [] \<Rightarrow> Inr (None, [])
      | c0 # cs \<Rightarrow>
          (case choose_elite_candidate all_cands elite_margin of
             Some elite \<Rightarrow> Inr (Some (c_dt elite), c_raw elite)
           | None \<Rightarrow>
               bind_err (choose_by_weighted_fields all_cands)
                 (\<lambda>(dt_obj, rep).
                    let (dt_obj, rep) =
                          (case dt_obj of
                             None \<Rightarrow> (let r = py_max_by c_weight c0 cs in (Some (c_dt r), Some r))
                           | Some t \<Rightarrow> (dt_obj, rep))
                    in Inr (dt_obj, (case rep of Some r \<Rightarrow> c_raw r | None \<Rightarrow> [])))))"

section \<open>The pipeline of one image\<close>

definition VARIANT_TAGS :: "string list" where
  \<comment> \<open>the tags of \<^verbatim>\<open>variant_images\<close>, in the order in which it appends them\<close>
  "VARIANT_TAGS = [''cubic|otsu_inv'', ''cubic|blur_otsu_inv'', ''cubic|morph_inv'',
                   ''cubic|adapt_inv'', ''nearest|otsu_inv'', ''nearest|adapt_inv'']"

definition variant_images :: "(string \<Rightarrow> image \<Rightarrow> image) \<Rightarrow> image \<Rightarrow> (string \<times> image) list" where
  \<comment> \<open>\<open>cv tag\<close> stands for the chain of \<^verbatim>\<open>cv2\<close> calls that makes the variant \<open>tag\<close>\<close>
  "variant_images cv gray_small = map (\<lambda>tag. (tag, cv tag gray_small)) VARIANT_TAGS"

definition candidate_of :: "string \<Rightarrow> string \<Rightarrow> string \<Rightarrow> py_error + cand option" where
  \<comment> \<open>the body of the loop of \<^verbatim>\<open>collect_candidates_from_roi\<close>, from the text read\<close>
  "candidate_of roi_tag vtag text =
     (let raw = replace_char newline CHR '' '' (strip text) in
      bind_err (parse_timestamp_flex raw)
        (\<lambda>r. Inr (map_option
                    (\<lambda>(dtobj, ps).
                       \<lparr>c_dt = dtobj, c_canon = strftime dtobj, c_parts = ps, c_raw = raw,
                        c_roi = roi_tag, c_var = vtag, c_w = candidate_weight roi_tag vtag raw\<rparr>)
                    r)))"

fun collect_loop :: "(image \<Rightarrow> string) \<Rightarrow> string \<Rightarrow> (string \<times> image) list \<Rightarrow> py_error + cand list" where
  "collect_loop ocr roi_tag [] = Inr []"
| "collect_loop ocr roi_tag ((vtag, im) # r) =
     bind_err (candidate_of roi_tag vtag (ocr im))
       (\<lambda>c. bind_err (collect_loop ocr roi_tag r)
               (\<lambda>cs. Inr ((case c of None \<Rightarrow> [] | Some x \<Rightarrow> [x]) @ cs)))"

definition collect_candidates_from_roi ::
  "(string \<Rightarrow> image \<Rightarrow> image) \<Rightarrow> (image \<Rightarrow> string) \<Rightarrow> image \<Rightarrow> string \<Rightarrow> py_error + cand list" where
  "collect_candidates_from_roi cv ocr roi_gray roi_tag =
     collect_loop ocr roi_tag (variant_images cv roi_gray)"

definition make_rois :: "image \<Rightarrow> (string \<times> image) list" where
  \<comment> \<open>the list \<^verbatim>\<open>rois\<close> of \<^verbatim>\<open>process_image\<close>\<close>
  "make_rois band =
     (let W = width band in
      [(''full'', band),
       (''left70'', map (take (times_0_70 W)) band),
       (''mid60'', map (\<lambda>r. take (times_0_80 W - times_0_20 W) (drop (times_0_20 W) r)) band),
       (''right60'', map (drop (times_0_40 W)) band)])"

fun collect_all ::
  "(string \<Rightarrow> image \<Rightarrow> image) \<Rightarrow> (image \<Rightarrow> string) \<Rightarrow> (string \<times> image) list \<Rightarrow> py_error + cand list" where
  "collect_all cv ocr [] = Inr []"
| "collect_all cv ocr ((rtag, roi) # r) =
     bind_err (collect_candidates_from_roi cv ocr roi rtag)
       (\<lambda>cs. bind_err (collect_all cv ocr r) (\<lambda>ds. Inr (cs @ ds)))"

definition image_candidates ::
  "(string \<Rightarrow> image \<Rightarrow> image) \<Rightarrow> (image \<Rightarrow> string) \<Rightarrow> image \<Rightarrow> py_error + cand list" where
  \<comment> \<open>\<^verbatim>\<open>all_cands\<close> of \<^verbatim>\<open>process_image\<close> for a decoded grey image\<close>
  "image_candidates cv ocr gray =
     (case find_top_black_banner gray of (y0, y1) \<Rightarrow>
        let band = take (nat (y1 - y0)) (drop (nat y0) gray)
        in collect_all cv ocr (make_rois band))"

definition process_image ::
  "(string \<Rightarrow> image \<Rightarrow> image) \<Rightarrow> (image \<Rightarrow> string) \<Rightarrow> image option \<Rightarrow> double
     \<Rightarrow> py_error + (datetime option \<times> string)" where
  \<comment> \<open>\<open>decoded\<close> is the grey image of the file, \<open>None\<close> when \<^verbatim>\<open>cv2.imread\<close> returns
      \<^verbatim>\<open>None\<close>\<close>
  "process_image cv ocr decoded elite_margin =
     (case decoded of
        None \<Rightarrow> Inr (None, [])
      | Some gray \<Rightarrow>
          bind_err (image_candidates cv ocr gray)
            (\<lambda>all_cands. process_image_select all_cands elite_margin))"

section \<open>Notions used to state the properties\<close>

definition top_weight_candidate :: "cand list \<Rightarrow> cand option" where
  \<comment> \<open>the candidate of greatest weight, the first of them in the order of the list\<close>
  "top_weight_candidate cs = find (\<lambda>c. \<forall>d \<in> set cs. c_weight d \<le> c_weight c) cs"

definition is_double :: "double \<Rightarrow> bool" where
  \<comment> \<open>the mantissa has at most 53 bits\<close>
  "is_double x = (case x of Double m e \<Rightarrow> \<bar>m\<bar> < 2 ^ 53)"

definition preferred_cand :: "cand \<Rightarrow> bool" where
  "preferred_cand c = (c_roi c \<in> PREFERRED_ROIS \<and> c_var c \<in> PREFERRED_VARS)"

definition first_max :: "('a \<Rightarrow> real) \<Rightarrow> 'a list \<Rightarrow> 'a \<Rightarrow> bool" where
  \<comment> \<open>\<open>y\<close> is the first element of \<open>xs\<close> among those where \<open>f\<close> is greatest\<close>
  "first_max f xs y =
     (\<exists>pre post. xs = pre @ y # post \<and> (\<forall>x \<in> set pre. f x < f y) \<and> (\<forall>x \<in> set post. f x \<le> f y))"

section \<open>Example candidates\<close>

text \<open>
  Candidates as \<open>candidate_of\<close> builds them, from readings of one overlay. The weights
  of \<open>ex_A\<close> to \<open>ex_J\<close> are the doubles that print as 7.4, 3.1999999999999997,
  2.8000000000000003 (twice), -1.4, -2.1, 5.6, 4.8, 3.5999999999999996 and
  0.39999999999999997.
\<close>

definition margin_default :: double where
  \<comment> \<open>the default of \<^verbatim>\<open>--elite_margin\<close>, the double 0.8\<close>
  "margin_default = d_0_8"

definition margin_2e9 :: double where
  "margin_2e9 = Double 2000000000 0"

definition ex_A :: cand where
  "ex_A = \<lparr>c_dt = Datetime 2024 8 1 6 31 27, c_canon = ''2024-08-01 06:31:27'',
           c_parts = (2024, 8, 1, 6, 31, 27), c_raw = ''2024-08-01 06:31:27'',
           c_roi = ''left70'', c_var = ''cubic|morph_inv'', c_w = Double 8331659310635418 (- 50)\<rparr>"

definition ex_B :: cand where
  "ex_B = \<lparr>c_dt = Datetime 2024 8 1 6 31 28, c_canon = ''2024-08-01 06:31:28'',
           c_parts = (2024, 8, 1, 6, 31, 28), c_raw = ''2024-08-01 06:31:28'',
           c_roi = ''full'', c_var = ''cubic|otsu_inv'', c_w = Double 7205759403792793 (- 51)\<rparr>"

definition ex_C :: cand where
  "ex_C = \<lparr>c_dt = Datetime 2024 8 1 6 32 27, c_canon = ''2024-08-01 06:32:27'',
           c_parts = (2024, 8, 1, 6, 32, 27), c_raw = ''2024-08-01 06:32:27'',
           c_roi = ''full'', c_var = ''cubic|adapt_inv'', c_w = Double 6305039478318695 (- 51)\<rparr>"

definition ex_D :: cand where
  "ex_D = \<lparr>c_dt = Datetime 2024 8 2 6 31 27, c_canon = ''2024-08-02 06:31:27'',
           c_parts = (2024, 8, 2, 6, 31, 27), c_raw = ''2024-08-02 06:31:27'',
           c_roi = ''left70'', c_var = ''nearest|otsu_inv'', c_w = Double 6305039478318695 (- 51)\<rparr>"

definition sum_from :: "double \<Rightarrow> ('a \<times> double) list \<Rightarrow> 'a \<Rightarrow> double" where
  \<comment> \<open>the positive weights that come with the value \<open>v\<close>, added to \<open>s\<close> one after the
      other in the order of the list\<close>
  "sum_from s vws v = foldl fadd s (map snd (filter (\<lambda>(u, x). u = v \<and> 0 < valof x) vws))"

definition summed_weight :: "('a \<times> double) list \<Rightarrow> 'a \<Rightarrow> double" where
  \<comment> \<open>the sum of the positive weights that come with the value \<open>v\<close>, as the doubles add up
      from zero in the order of the list\<close>
  "summed_weight vws v = sum_from dzero vws v"

definition has_positive :: "('a \<times> double) list \<Rightarrow> 'a \<Rightarrow> bool" where
  \<comment> \<open>the value \<open>v\<close> comes with a positive weight at least once\<close>
  "has_positive vws v = list_ex (\<lambda>(u, x). u = v \<and> 0 < valof x) vws"

definition wf_cand :: "cand \<Rightarrow> bool" where
  \<comment> \<open>the date object of the candidate is the one made from its fields, as for every
      candidate that \<open>candidate_of\<close> builds\<close>
  "wf_cand c = (dt_fields (c_dt c) = parts_fields (c_parts c))"

definition ex_E :: cand where
  "ex_E = \<lparr>c_dt = Datetime 2024 8 1 6 31 27, c_canon = ''2024-08-01 06:31:27'',
           c_parts = (2024, 8, 1, 6, 31, 27), c_raw = ''2024-08-01 06:31:27'',
           c_roi = ''mid60'', c_var = ''nearest|otsu_inv'', c_w = Double (- 6305039478318694) (- 52)\<rparr>"

definition ex_F :: cand where
  "ex_F = \<lparr>c_dt = Datetime 2024 8 1 6 31 28, c_canon = ''2024-08-01 06:31:28'',
           c_parts = (2024, 8, 1, 6, 31, 28), c_raw = ''2024-08-01 06:31:28'',
           c_roi = ''right60'', c_var = ''nearest|adapt_inv'', c_w = Double (- 4728779608739021) (- 51)\<rparr>"

definition ex_G :: cand where
  "ex_G = \<lparr>c_dt = Datetime 2024 8 1 6 31 27, c_canon = ''2024-08-01 06:31:27'',
           c_parts = (2024, 8, 1, 6, 31, 27), c_raw = ''20240801063127'',
           c_roi = ''left70'', c_var = ''cubic|blur_otsu_inv'', c_w = Double 6305039478318694 (- 50)\<rparr>"

definition ex_H :: cand where
  "ex_H = \<lparr>c_dt = Datetime 2024 8 1 6 31 27, c_canon = ''2024-08-01 06:31:27'',
           c_parts = (2024, 8, 1, 6, 31, 27), c_raw = ''2024-08-01 06:131:27'',
           c_roi = ''full'', c_var = ''cubic|morph_inv'', c_w = Double 5404319552844595 (- 50)\<rparr>"

definition ex_I :: cand where
  "ex_I = \<lparr>c_dt = Datetime 2024 8 1 6 31 27, c_canon = ''2024-08-01 06:31:27'',
           c_parts = (2024, 8, 1, 6, 31, 27), c_raw = ''2024-08-01 06:131:27'',
           c_roi = ''full'', c_var = ''cubic|blur_otsu_inv'', c_w = Double 8106479329266892 (- 51)\<rparr>"

definition ex_J :: cand where
  "ex_J = \<lparr>c_dt = Datetime 2024 8 1 6 31 28, c_canon = ''2024-08-01 06:31:28'',
           c_parts = (2024, 8, 1, 6, 31, 28), c_raw = ''2024:08:01 06:31:28'',
           c_roi = ''mid60'', c_var = ''cubic|otsu_inv'', c_w = Double 7205759403792793 (- 54)\<rparr>"

definition field_votes :: "cand list \<Rightarrow> nat \<Rightarrow> (int \<times> double) list" where
  \<comment> \<open>the values of field \<open>i\<close> of the candidates, each with the weight of its candidate\<close>
  "field_votes cs i = zip (map (\<lambda>c. parts_fields (c_parts c) ! i) cs) (map c_w cs)"

section \<open>Example image and stand-ins for the external calls\<close>

definition ex_gray :: image where
  \<comment> \<open>one row of ten pixels\<close>
  "ex_gray = [[0, 0, 0, 0, 0, 0, 0, 0, 0, 0]]"

definition ex_cv :: "string \<Rightarrow> image \<Rightarrow> image" where
  \<comment> \<open>a stand-in for the image transforms: it marks the image with a number for its tag\<close>
  "ex_cv tag im =
     [[if tag = ''cubic|otsu_inv'' then 1 else if tag = ''cubic|adapt_inv'' then 2
       else if tag = ''nearest|otsu_inv'' then 3 else 0]] @ im"

definition ex_ocr :: "image \<Rightarrow> string" where
  \<comment> \<open>a stand-in for the OCR engine: three of the variants are read, each with one field
      misread, the others give no text\<close>
  "ex_ocr im =
     (case im of
        [[mark], row] \<Rightarrow>
          if mark = 1 \<and> length row = 10 then ''2024-08-01 06:31:28''
          else if mark = 2 \<and> length row = 10 then ''2024-08-01 06:32:27''
          else if mark = 3 \<and> length row = 7 then ''2024-08-02 06:31:27''
          else []
      | _ \<Rightarrow> [])"

definition blank_ocr :: "image \<Rightarrow> string" where
  \<comment> \<open>a stand-in for an OCR engine that reads nothing\<close>
  "blank_ocr im = []"

definition consistent :: "py_error + (datetime \<times> parts) option \<Rightarrow> bool" where
  \<comment> \<open>a parse result whose date object, when there is one, is made from its fields\<close>
  "consistent r = (case r of Inr (Some (t, p)) \<Rightarrow> dt_fields t = parts_fields p | _ \<Rightarrow> True)"


section \<open>The triplet repair, in the words of the specification\<close>

text \<open>
  Written from the sentence of the specification, not from the code: a run of three digits
  that follows a colon or a white space character and is followed by one or by the end of
  the string is replaced by its last two digits, when its first digit is 0 or 1 and the
  last two make a value from 0 to 59; every other character is copied.
\<close>

fun triplet_repair_spec :: "string \<Rightarrow> string" where
  "triplet_repair_spec (c # d1 # d2 # d3 # rest) =
     (if colon_or_space c \<and> is_digit d1 \<and> is_digit d2 \<and> is_digit d3
         \<and> (rest = [] \<or> colon_or_space (hd rest))
      then c # (if (d1 = CHR ''0'' \<or> d1 = CHR ''1'') \<and> 0 \<le> py_int [d2, d3] \<and> py_int [d2, d3] \<le> 59
                then [d2, d3] else [d1, d2, d3])
           @ triplet_repair_spec rest
      else c # triplet_repair_spec (d1 # d2 # d3 # rest))"
| "triplet_repair_spec (c # cs) = c # triplet_repair_spec cs"
| "triplet_repair_spec [] = []"

section \<open>Notions used for the normal form of a normalised text\<close>

definition squeeze :: "(char \<Rightarrow> bool) \<Rightarrow> nat \<Rightarrow> char \<Rightarrow> string \<Rightarrow> string" where
  \<comment> \<open>the substitutions of \<open>normalize_ocr\<close> that replace a run of a class by one character\<close>
  "squeeze p lo r s = re_sub [Rep p lo None True] (\<lambda>_. [r]) s"

fun no_pair :: "(char \<Rightarrow> bool) \<Rightarrow> string \<Rightarrow> bool" where
  \<comment> \<open>no two neighbours are both of the class \<open>q\<close>\<close>
  "no_pair q [] = True"
| "no_pair q [c] = True"
| "no_pair q (a # b # s) = (\<not> (q a \<and> q b) \<and> no_pair q (b # s))"

definition clean_ends :: "string \<Rightarrow> bool" where
  \<comment> \<open>no white space at either end\<close>
  "clean_ends s = (s = [] \<or> (\<not> is_space (hd s) \<and> \<not> is_space (last s)))"

definition confusable :: "char \<Rightarrow> bool" where
  \<comment> \<open>the letters that \<open>confusables\<close> replaces\<close>
  "confusable c = (c \<in> set ''OoIlSB'')"

definition normal_form :: "string \<Rightarrow> bool" where
  "normal_form s =
     (clean_ends s
      \<and> list_all (\<lambda>c. \<not> confusable c \<and> \<not> slash_like c \<and> (is_space c \<longrightarrow> c = CHR '' '')) s
      \<and> no_pair is_space s \<and> no_pair (is_char CHR '':'') s \<and> no_pair (is_char CHR ''-'') s)"

definition conf_char :: "char \<Rightarrow> char" where
  \<comment> \<open>what \<open>confusables\<close> makes of one character\<close>
  "conf_char c =
     (if c = CHR ''O'' \<or> c = CHR ''o'' then CHR ''0''
      else if c = CHR ''I'' \<or> c = CHR ''l'' then CHR ''1''
      else if c = CHR ''S'' then CHR ''5''
      else if c = CHR ''B'' then CHR ''8'' else c)"

definition clean_text ::
  "char \<Rightarrow> char \<Rightarrow> char \<Rightarrow> char \<Rightarrow> char \<Rightarrow> char \<Rightarrow> char \<Rightarrow> char \<Rightarrow> char \<Rightarrow> char \<Rightarrow> string" where
  \<comment> \<open>the text \<^verbatim>\<open>20yy-mm-dd hh:mm:ss\<close> with the given digits\<close>
  "clean_text y3 y4 mo1 mo2 da1 da2 ho1 ho2 mi1 mi2 =
     CHR ''2'' # CHR ''0'' # y3 # y4 # CHR ''-'' # mo1 # mo2 # CHR ''-'' # da1 # da2 # CHR '' ''
     # ho1 # ho2 # CHR '':'' # mi1 # mi2 # [CHR '':'']"

section \<open>Sorting and maxima\<close>

lemma first_max_find:
  assumes "first_max f xs y"
  shows "find (\<lambda>c. \<forall>d \<in> set xs. f d \<le> f c) xs = Some y"
proof -
  from assms obtain pre post where xs: "xs = pre @ y # post"
    and pre: "\<forall>x \<in> set pre. f x < f y" and post: "\<forall>x \<in> set post. f x \<le> f y"
    unfolding first_max_def by blast
  have P: "\<forall>d \<in> set xs. f d \<le> f y" using xs pre post by auto
  have N: "\<forall>x \<in> set pre. \<not> (\<forall>d \<in> set xs. f d \<le> f x)"
    using pre xs by (auto simp: not_le)
  show ?thesis
    unfolding find_Some_iff
    apply (rule exI[of _ "length pre"])
    using xs P N by (auto simp: nth_append)
qed

lemma first_max_unique: "first_max f xs y \<Longrightarrow> first_max f xs z \<Longrightarrow> y = z"
  using first_max_find by (metis option.inject)

lemma sort_key_head_min:
  assumes "sort_key g xs = y # ys"
  shows "y \<in> set xs" and "\<forall>x \<in> set xs. g y \<le> g x"
proof -
  have "set (sort_key g xs) = set xs" by simp
  with assms show "y \<in> set xs" by (metis list.set_intros(1))
  have "sorted (map g (sort_key g xs))" by (rule sorted_sort_key)
  with assms have "\<forall>x \<in> set ys. g y \<le> g x" by auto
  moreover have "set xs = insert y (set ys)" using assms by (metis list.simps(15) set_sort)
  ultimately show "\<forall>x \<in> set xs. g y \<le> g x" by auto
qed

lemma sort_key_head_first:
  fixes f :: "'a \<Rightarrow> real"
  assumes "sort_key (\<lambda>c. - f c) xs = y # ys"
  shows "first_max f xs y"
proof -
  let ?g = "\<lambda>c. - f c"
  have min: "\<forall>x \<in> set xs. ?g y \<le> ?g x" using sort_key_head_min(2)[OF assms] .
  have "filter (\<lambda>x. ?g x = ?g y) (sort_key ?g xs) = filter (\<lambda>x. ?g x = ?g y) xs"
    by (rule sort_key_stable)
  with assms have "filter (\<lambda>x. ?g x = ?g y) xs = y # filter (\<lambda>x. ?g x = ?g y) ys" by simp
  then obtain pre post where xs: "xs = pre @ y # post" and pre: "\<forall>x \<in> set pre. ?g x \<noteq> ?g y"
    by (auto simp: filter_eq_Cons_iff)
  have "\<forall>x \<in> set pre. f x < f y"
  proof
    fix x assume x: "x \<in> set pre"
    then have "?g y \<le> ?g x" using min xs by auto
    moreover have "?g x \<noteq> ?g y" using pre x by blast
    ultimately show "f x < f y" by linarith
  qed
  moreover have "\<forall>x \<in> set post. f x \<le> f y" using min xs by auto
  ultimately show ?thesis unfolding first_max_def using xs by blast
qed

lemma sort_key_second:
  fixes f :: "'a \<Rightarrow> real"
  assumes "sort_key (\<lambda>c. - f c) xs = y # ys"
  shows "set (remove1 y xs) = set ys" and "\<forall>z zs. ys = z # zs \<longrightarrow> (\<forall>x \<in> set ys. f x \<le> f z)"
proof -
  have "mset (sort_key (\<lambda>c. - f c) xs) = mset xs" by simp
  with assms have "mset xs = add_mset y (mset ys)" by simp
  then have "mset (remove1 y xs) = mset ys" by simp
  then show "set (remove1 y xs) = set ys" by (metis set_mset_mset)
  have "sorted (map (\<lambda>c. - f c) (sort_key (\<lambda>c. - f c) xs))" by (rule sorted_sort_key)
  with assms show "\<forall>z zs. ys = z # zs \<longrightarrow> (\<forall>x \<in> set ys. f x \<le> f z)" by auto
qed

lemma py_max_by_first_max_aux:
  "(\<forall>x \<in> set pre. f x < f b) \<Longrightarrow> (\<forall>x \<in> set mid. f x \<le> f b)
     \<Longrightarrow> first_max f (pre @ b # mid @ xs) (py_max_by f b xs)"
proof (induction xs arbitrary: pre b mid)
  case Nil
  then show ?case unfolding first_max_def by auto
next
  case (Cons x xs)
  show ?case
  proof (cases "f x > f b")
    case True
    have "first_max f ((pre @ b # mid) @ x # [] @ xs) (py_max_by f x xs)"
      apply (rule Cons.IH) using Cons.prems True by fastforce+
    then show ?thesis using True by simp
  next
    case False
    have "first_max f (pre @ b # (mid @ [x]) @ xs) (py_max_by f b xs)"
      apply (rule Cons.IH) using Cons.prems False by fastforce+
    then show ?thesis using False by simp
  qed
qed

lemma py_max_by_first_max: "first_max f (b # xs) (py_max_by f b xs)"
  using py_max_by_first_max_aux[of "[]" f b "[]" xs] by simp

lemma top_weight_first_max: "first_max c_weight cs y \<Longrightarrow> top_weight_candidate cs = Some y"
  unfolding top_weight_candidate_def by (rule first_max_find)

lemma first_max_mem: "first_max f xs y \<Longrightarrow> y \<in> set xs"
  unfolding first_max_def by auto

lemma first_max_greatest: "first_max f xs y \<Longrightarrow> x \<in> set xs \<Longrightarrow> f x \<le> f y"
  unfolding first_max_def by fastforce

lemma first_max_exists: "cs \<noteq> [] \<Longrightarrow> \<exists>t. first_max f cs t"
  by (cases cs) (auto intro: py_max_by_first_max)

lemma top_weight_is_first_max:
  assumes "top_weight_candidate cs = Some t"
  shows "first_max c_weight cs t"
proof -
  have "cs \<noteq> []" using assms by (auto simp: top_weight_candidate_def)
  then obtain u where u: "first_max c_weight cs u" using first_max_exists by blast
  then have "top_weight_candidate cs = Some u" by (rule top_weight_first_max)
  with assms u show ?thesis by simp
qed

section \<open>Sums of doubles\<close>

text \<open>
  A sum that fits 53 bits is exact, a rounded sum keeps the sign of the exact one and is
  at least \<open>2^52\<close> units of the last place. For the absent runner-up this makes the test
  on the rounded sum \<open>-1e9 + m\<close> the test on the exact sum, whenever the weight compared
  with it lies between 0 and \<open>2^29\<close>.
\<close>

lemma pow2_powr: "pow2 e = 2 powr (real_of_int e)"
proof (cases "0 \<le> e")
  case True
  then have "real_of_int e = real (nat e)" by simp
  then show ?thesis using True by (simp add: pow2_def powr_realpow del: of_nat_nat)
next
  case False
  then have "real_of_int e = - real (nat (- e))" by simp
  then show ?thesis using False by (simp add: pow2_def powr_minus powr_realpow divide_inverse del: of_nat_nat)
qed

lemma pow2_pos: "0 < pow2 e"
  by (simp add: pow2_powr)

lemma pow2_add: "pow2 (a + b) = pow2 a * pow2 b"
  by (simp add: pow2_powr powr_add)

lemma pow2_mono: "a \<le> b \<Longrightarrow> pow2 a \<le> pow2 b"
  by (simp add: pow2_powr)

lemma pow2_nat: "2 ^ n = pow2 (int n)"
  by (simp add: pow2_def)

lemma ibitlen_le: "n < 2 ^ k \<Longrightarrow> ibitlen n \<le> k"
proof (induction k arbitrary: n)
  case 0
  then show ?case by (subst ibitlen.simps) simp
next
  case (Suc k)
  have "n div 2 < 2 ^ k" using Suc.prems by simp
  then have "ibitlen (n div 2) \<le> k" by (rule Suc.IH)
  then show ?case by (subst ibitlen.simps) simp
qed

lemma ibitlen_lower: "0 < n \<Longrightarrow> 2 ^ (ibitlen n - 1) \<le> n"
proof (induction n rule: ibitlen.induct)
  case (1 n)
  show ?case
  proof (cases "n div 2 \<le> 0")
    case True
    then have "n = 1" using 1(2) by simp
    then show ?thesis by (subst ibitlen.simps) (simp add: ibitlen.simps[of 0])
  next
    case False
    then have h: "2 ^ (ibitlen (n div 2) - 1) \<le> n div 2" using 1 by simp
    have pos: "0 < ibitlen (n div 2)" using False by (subst ibitlen.simps) simp
    have "ibitlen n = Suc (ibitlen (n div 2))" using 1(2) by (subst ibitlen.simps) simp
    then have "(2::int) ^ (ibitlen n - 1) = 2 * 2 ^ (ibitlen (n div 2) - 1)"
      using pos by (cases "ibitlen (n div 2)") simp_all
    also have "\<dots> \<le> 2 * (n div 2)" using h by simp
    also have "\<dots> \<le> n" by simp
    finally show ?thesis .
  qed
qed

lemma fadd_value:
  "real_of_int (m1 * 2 ^ nat (e1 - min e1 e2) + m2 * 2 ^ nat (e2 - min e1 e2)) * pow2 (min e1 e2)
     = real_of_int m1 * pow2 e1 + real_of_int m2 * pow2 e2"
proof -
  have a: "2 ^ nat (e1 - min e1 e2) * pow2 (min e1 e2) = pow2 e1"
    by (simp add: pow2_nat pow2_add [symmetric])
  have b: "2 ^ nat (e2 - min e1 e2) * pow2 (min e1 e2) = pow2 e2"
    by (simp add: pow2_nat pow2_add [symmetric])
  have "real_of_int (m1 * 2 ^ nat (e1 - min e1 e2) + m2 * 2 ^ nat (e2 - min e1 e2)) * pow2 (min e1 e2)
      = real_of_int m1 * (2 ^ nat (e1 - min e1 e2) * pow2 (min e1 e2))
        + real_of_int m2 * (2 ^ nat (e2 - min e1 e2) * pow2 (min e1 e2))"
    by (simp add: algebra_simps)
  then show ?thesis by (simp only: a b)
qed

lemma round_exact: "ibitlen \<bar>M\<bar> \<le> 53 \<Longrightarrow> valof (round_double M E) = real_of_int M * pow2 E"
  by (simp add: round_double_def Let_def)

lemma round_rounded:
  assumes "53 < ibitlen \<bar>M\<bar>"
  shows "\<exists>q'. \<bar>M\<bar> div 2 ^ (ibitlen \<bar>M\<bar> - 53) \<le> q'
           \<and> valof (round_double M E)
               = real_of_int (sgn M * q') * pow2 (E + int (ibitlen \<bar>M\<bar> - 53))"
proof -
  define sh where "sh = ibitlen \<bar>M\<bar> - 53"
  define q where "q = \<bar>M\<bar> div 2 ^ sh"
  define up where "up = (\<bar>M\<bar> mod 2 ^ sh > 2 ^ (sh - 1) \<or> (\<bar>M\<bar> mod 2 ^ sh = 2 ^ (sh - 1) \<and> odd q))"
  define q' where "q' = (if up then q + 1 else q)"
  have n: "\<not> ibitlen \<bar>M\<bar> \<le> 53" using assms by simp
  have "round_double M E = Double (sgn M * q') (E + int sh)"
    unfolding round_double_def Let_def if_not_P[OF n] q'_def up_def q_def sh_def ..
  then have "valof (round_double M E) = real_of_int (sgn M * q') * pow2 (E + int sh)"
    by (simp only: valof.simps)
  moreover have "q \<le> q'" by (simp add: q'_def)
  ultimately show ?thesis unfolding q_def sh_def by blast
qed

lemma round_nonpos:
  assumes "M \<le> 0"
  shows "valof (round_double M E) \<le> 0"
proof (cases "ibitlen \<bar>M\<bar> \<le> 53")
  case True
  have "real_of_int M * pow2 E \<le> 0"
    using assms pow2_pos[of E] by (intro mult_nonpos_nonneg) simp_all
  then show ?thesis using True by (simp only: round_exact)
next
  case False
  then have "53 < ibitlen \<bar>M\<bar>" by simp
  from round_rounded[OF this, of E] obtain q' where
    q: "\<bar>M\<bar> div 2 ^ (ibitlen \<bar>M\<bar> - 53) \<le> q'"
    and v: "valof (round_double M E)
               = real_of_int (sgn M * q') * pow2 (E + int (ibitlen \<bar>M\<bar> - 53))" by blast
  have "(0::int) < 2 ^ (ibitlen \<bar>M\<bar> - 53)" by (rule zero_less_power) simp
  then have "0 \<le> \<bar>M\<bar> div 2 ^ (ibitlen \<bar>M\<bar> - 53)"
    by (rule pos_imp_zdiv_nonneg_iff [THEN iffD2]) (rule abs_ge_zero)
  then have "0 \<le> q'" using q by simp
  with \<open>M \<le> 0\<close> have "sgn M * q' \<le> 0" by (intro mult_nonpos_nonneg) (simp_all add: sgn_if)
  then have "real_of_int (sgn M * q') \<le> 0" by (simp only: of_int_le_0_iff)
  then have "real_of_int (sgn M * q') * pow2 (E + int (ibitlen \<bar>M\<bar> - 53)) \<le> 0"
    using pow2_pos[of "E + int (ibitlen \<bar>M\<bar> - 53)"] by (intro mult_nonpos_nonneg) simp_all
  then show ?thesis by (simp only: v)
qed

lemma big_M: "53 < ibitlen M \<Longrightarrow> 2 ^ 53 \<le> M"
  using ibitlen_le[of M 53] by (cases "M < 2 ^ 53") auto

lemma round_big:
  assumes "0 < M" and "53 < ibitlen M"
  shows "pow2 (E + 53) \<le> valof (round_double M E)"
proof -
  define sh where "sh = ibitlen M - 53"
  have abs: "\<bar>M\<bar> = M" using assms(1) by simp
  have big: "53 < ibitlen \<bar>M\<bar>" using assms(2) abs by simp
  from round_rounded[OF big, of E] obtain q' where
    q: "M div 2 ^ sh \<le> q'"
    and v: "valof (round_double M E) = real_of_int (sgn M * q') * pow2 (E + int sh)"
    unfolding abs sh_def by blast
  have sh: "1 \<le> sh" and b: "ibitlen M - 1 = 52 + sh" using assms(2) by (simp_all add: sh_def)
  have "2 ^ (ibitlen M - 1) \<le> M" using assms(1) by (rule ibitlen_lower)
  then have "(2::int) ^ 52 * 2 ^ sh \<le> M" by (simp only: b power_add)
  then have "((2::int) ^ 52 * 2 ^ sh) div 2 ^ sh \<le> M div 2 ^ sh" by (rule zdiv_mono1) simp
  moreover have "((2::int) ^ 52 * 2 ^ sh) div 2 ^ sh = 2 ^ 52" by (rule nonzero_mult_div_cancel_right) simp
  ultimately have "(2::int) ^ 52 \<le> q'" using q by (simp only:)
  then have "real_of_int (2 ^ 52) \<le> real_of_int q'" by (rule of_int_le_iff [THEN iffD2])
  then have r: "pow2 52 \<le> real_of_int q'" by (simp add: pow2_def)
  have e: "E + 53 = 52 + (E + 1)" by simp
  have "pow2 (E + 53) = pow2 52 * pow2 (E + 1)" by (subst e) (rule pow2_add)
  also have "\<dots> \<le> real_of_int q' * pow2 (E + int sh)"
  proof (rule mult_mono)
    show "pow2 52 \<le> real_of_int q'" by (rule r)
    show "pow2 (E + 1) \<le> pow2 (E + int sh)" using sh by (intro pow2_mono) simp
    show "0 \<le> real_of_int q'" using r pow2_pos[of 52] by linarith
    show "0 \<le> pow2 (E + 1)" using pow2_pos[of "E + 1"] by simp
  qed
  also have "\<dots> = valof (round_double M E)" using assms(1) by (simp add: v)
  finally show ?thesis .
qed

lemma absent_runner_up_exact:
  assumes "is_double m" and "0 \<le> w" and "w < 2 ^ 29"
  shows "(valof (fadd d_minus_1e9 m) \<le> w) = (- 1000000000 + valof m \<le> w)"
proof -
  obtain mm me where m: "m = Double mm me" by (cases m)
  have mm: "\<bar>mm\<bar> < 2 ^ 53" using assms(1) m by (simp add: is_double_def)
  define E where "E = min 0 me"
  define M where "M = (- 1000000000) * 2 ^ nat (0 - E) + mm * 2 ^ nat (me - E)"
  have f: "fadd d_minus_1e9 m = round_double M E"
    by (simp add: d_minus_1e9_def m M_def E_def Let_def)
  have "real_of_int M * pow2 E = real_of_int (- 1000000000) * pow2 0 + real_of_int mm * pow2 me"
    unfolding M_def E_def by (rule fadd_value)
  then have x: "real_of_int M * pow2 E = - 1000000000 + valof m"
    by (simp add: m pow2_def)
  show ?thesis
  proof (cases "ibitlen \<bar>M\<bar> \<le> 53")
    case True
    then show ?thesis by (simp only: f round_exact x)
  next
    case False
    then have big: "53 < ibitlen \<bar>M\<bar>" by simp
    show ?thesis
    proof (cases "M \<le> 0")
      case True
      have "valof (round_double M E) \<le> 0" using True by (rule round_nonpos)
      moreover have "real_of_int M * pow2 E \<le> 0"
        using True pow2_pos[of E] by (intro mult_nonpos_nonneg) simp_all
      ultimately show ?thesis using assms(2) by (simp only: f) (simp only: x [symmetric], linarith)
    next
      case False
      then have pos: "0 < M" by simp
      then have abs: "\<bar>M\<bar> = M" by simp
      have big': "53 < ibitlen M" using big by (simp only: abs)
      have "0 < real_of_int M * pow2 E" using pos pow2_pos[of E] by simp
      then have lead: "1000000000 < real_of_int mm * pow2 me" using x by (simp add: m)
      have me: "- 23 \<le> me"
      proof (rule ccontr)
        assume "\<not> - 23 \<le> me"
        then have "me \<le> - 24" by simp
        then have p: "pow2 me \<le> pow2 (- 24)" by (rule pow2_mono)
        have "real_of_int mm \<le> real_of_int (2 ^ 53)" using mm by (intro of_int_le_iff [THEN iffD2]) simp
        then have "real_of_int mm * pow2 me \<le> real_of_int (2 ^ 53) * pow2 (- 24)"
          using p pow2_pos[of me] by (intro mult_mono) simp_all
        also have "\<dots> = 536870912" by (simp add: pow2_def)
        finally show False using lead by simp
      qed
      then have "- 23 \<le> E" by (simp add: E_def)
      then have "pow2 30 \<le> pow2 (E + 53)" by (intro pow2_mono) simp
      moreover have "pow2 30 = 1073741824" by (simp add: pow2_def)
      ultimately have low: "1073741824 \<le> pow2 (E + 53)" by simp
      have r: "pow2 (E + 53) \<le> valof (round_double M E)" using pos big' by (rule round_big)
      have "2 ^ 53 \<le> M" using big' by (rule big_M)
      then have "real_of_int (2 ^ 53) \<le> real_of_int M" by (rule of_int_le_iff [THEN iffD2])
      then have "pow2 53 \<le> real_of_int M" by (simp add: pow2_def)
      then have "pow2 53 * pow2 E \<le> real_of_int M * pow2 E"
        using pow2_pos[of E] by (intro mult_right_mono) simp_all
      moreover have "pow2 53 * pow2 E = pow2 (E + 53)" by (simp add: pow2_add [symmetric] add.commute)
      ultimately have e: "pow2 (E + 53) \<le> - 1000000000 + valof m" using x by simp
      have "w < 1073741824" using assms(3) by simp
      then have "\<not> valof (round_double M E) \<le> w" and "\<not> - 1000000000 + valof m \<le> w"
        using low r e by linarith+
      then show ?thesis by (simp only: f)
    qed
  qed
qed

section \<open>The elite shortcut\<close>

lemma choose_elite_Some:
  assumes "choose_elite_candidate cs m = Some c"
  shows "first_max c_weight cs c" and "preferred_cand c"
    and "(remove1 c cs = [] \<and> valof (fadd d_minus_1e9 m) \<le> c_weight c)
         \<or> (\<exists>z \<in> set (remove1 c cs). (\<forall>d \<in> set (remove1 c cs). c_weight d \<le> c_weight z)
                \<and> valof (fadd (c_w z) m) \<le> c_weight c)"
proof -
  from assms obtain ys where srt: "sort_key (\<lambda>c. - c_weight c) cs = c # ys"
    and pref: "preferred_cand c"
    and lead: "valof (fadd (case ys of [] \<Rightarrow> d_minus_1e9 | d # _ \<Rightarrow> c_w d) m) \<le> c_weight c"
    unfolding choose_elite_candidate_def preferred_cand_def
    by (auto simp: Let_def split: list.splits if_splits)
  show "first_max c_weight cs c" using srt by (rule sort_key_head_first)
  show "preferred_cand c" by (rule pref)
  have rest: "set (remove1 c cs) = set ys" using sort_key_second(1)[OF srt] .
  show "(remove1 c cs = [] \<and> valof (fadd d_minus_1e9 m) \<le> c_weight c)
         \<or> (\<exists>z \<in> set (remove1 c cs). (\<forall>d \<in> set (remove1 c cs). c_weight d \<le> c_weight z)
                \<and> valof (fadd (c_w z) m) \<le> c_weight c)"
  proof (cases ys)
    case Nil
    then have "remove1 c cs = []" using rest by simp
    then show ?thesis using lead Nil by simp
  next
    case (Cons z zs)
    then have "\<forall>x \<in> set ys. c_weight x \<le> c_weight z" using sort_key_second(2)[OF srt] by blast
    moreover have "valof (fadd (c_w z) m) \<le> c_weight c" using lead Cons by simp
    moreover have "z \<in> set (remove1 c cs)" using rest Cons by simp
    ultimately show ?thesis using rest by blast
  qed
qed

lemma choose_elite_not_preferred:
  assumes "first_max c_weight cs t" and "\<not> preferred_cand t"
  shows "choose_elite_candidate cs m = None"
proof (cases "choose_elite_candidate cs m")
  case None
  then show ?thesis .
next
  case (Some c)
  then have "first_max c_weight cs c" and "preferred_cand c" by (rule choose_elite_Some)+
  then show ?thesis using assms first_max_unique by metis
qed

text \<open>
  Claim C3. When \<open>choose_elite_candidate\<close> returns a candidate, that candidate is the one
  of greatest weight in the list (the first of them), its ROI tag is \<open>left70\<close> or \<open>full\<close>,
  its variant tag is \<open>cubic|morph_inv\<close> or \<open>cubic|blur_otsu_inv\<close>, and its weight is at
  least the weight of the runner-up plus the margin: the runner-up is a candidate of
  greatest weight among the others (with the weight \<open>-1e9\<close> when there is no other), and
  the sum is the one the program computes, the double nearest to the exact sum. When the
  candidate of greatest weight is outside the preferred sets, the function returns
  nothing, whatever the margin.
\<close>

theorem elite_only_for_preferred_leader:
  "(choose_elite_candidate cs m = Some c \<longrightarrow>
      top_weight_candidate cs = Some c \<and> c \<in> set cs \<and> (\<forall>d \<in> set cs. c_weight d \<le> c_weight c)
      \<and> c_roi c \<in> PREFERRED_ROIS \<and> c_var c \<in> PREFERRED_VARS
      \<and> ((remove1 c cs = [] \<and> valof (fadd d_minus_1e9 m) \<le> c_weight c)
          \<or> (\<exists>z \<in> set (remove1 c cs). (\<forall>d \<in> set (remove1 c cs). c_weight d \<le> c_weight z)
                 \<and> valof (fadd (c_w z) m) \<le> c_weight c)))
   \<and> (top_weight_candidate cs = Some t \<and> \<not> (c_roi t \<in> PREFERRED_ROIS \<and> c_var t \<in> PREFERRED_VARS)
        \<longrightarrow> choose_elite_candidate cs m = None)"
proof (intro conjI impI)
  assume h: "choose_elite_candidate cs m = Some c"
  have fm: "first_max c_weight cs c" using h by (rule choose_elite_Some(1))
  show "top_weight_candidate cs = Some c" using fm by (rule top_weight_first_max)
  show "c \<in> set cs" using fm by (rule first_max_mem)
  show "\<forall>d \<in> set cs. c_weight d \<le> c_weight c" using fm by (auto intro: first_max_greatest)
  show "c_roi c \<in> PREFERRED_ROIS" and "c_var c \<in> PREFERRED_VARS"
    using choose_elite_Some(2)[OF h] by (simp_all add: preferred_cand_def)
  show "(remove1 c cs = [] \<and> valof (fadd d_minus_1e9 m) \<le> c_weight c)
          \<or> (\<exists>z \<in> set (remove1 c cs). (\<forall>d \<in> set (remove1 c cs). c_weight d \<le> c_weight z)
                 \<and> valof (fadd (c_w z) m) \<le> c_weight c)"
    using h by (rule choose_elite_Some(3))
next
  assume h: "top_weight_candidate cs = Some t \<and> \<not> (c_roi t \<in> PREFERRED_ROIS \<and> c_var t \<in> PREFERRED_VARS)"
  then have "first_max c_weight cs t" by (simp add: top_weight_is_first_max)
  moreover have "\<not> preferred_cand t" using h by (simp add: preferred_cand_def)
  ultimately show "choose_elite_candidate cs m = None" by (rule choose_elite_not_preferred)
qed

theorem elite_only_for_preferred_leader_witness:
  "choose_elite_candidate [ex_H, ex_G] margin_default = Some ex_G
   \<and> top_weight_candidate [ex_H, ex_G] = Some ex_G
   \<and> c_roi ex_G \<in> PREFERRED_ROIS \<and> c_var ex_G \<in> PREFERRED_VARS
   \<and> valof (fadd (c_w ex_H) margin_default) \<le> c_weight ex_G
   \<and> c_weight ex_G < c_weight ex_H + valof margin_default
   \<and> top_weight_candidate [ex_C, ex_B] = Some ex_B
   \<and> \<not> (c_roi ex_B \<in> PREFERRED_ROIS \<and> c_var ex_B \<in> PREFERRED_VARS)
   \<and> choose_elite_candidate [ex_C, ex_B] margin_default = None"
proof -
  have fires: "choose_elite_candidate [ex_H, ex_G] margin_default = Some ex_G"
    by code_simp
  have leader: "top_weight_candidate [ex_C, ex_B] = Some ex_B"
    by (simp add: top_weight_candidate_def c_weight_def ex_B_def ex_C_def pow2_def)
  have outside: "\<not> (c_roi ex_B \<in> PREFERRED_ROIS \<and> c_var ex_B \<in> PREFERRED_VARS)"
    by (simp add: ex_B_def PREFERRED_VARS_def)
  have others: "remove1 ex_G [ex_H, ex_G] = [ex_H]"
    by (simp add: ex_G_def ex_H_def)
  have exact: "c_weight ex_G < c_weight ex_H + valof margin_default"
    by (simp add: c_weight_def ex_G_def ex_H_def margin_default_def d_0_8_def pow2_def)
  note first = elite_only_for_preferred_leader
    [of "[ex_H, ex_G]" margin_default ex_G ex_G, THEN conjunct1, rule_format, OF fires]
  note second = elite_only_for_preferred_leader
    [of "[ex_C, ex_B]" margin_default ex_C ex_B, THEN conjunct2, rule_format, OF conjI [OF leader outside]]
  have "(remove1 ex_G [ex_H, ex_G] = [] \<and> valof (fadd d_minus_1e9 margin_default) \<le> c_weight ex_G)
          \<or> (\<exists>z \<in> set (remove1 ex_G [ex_H, ex_G]).
                (\<forall>d \<in> set (remove1 ex_G [ex_H, ex_G]). c_weight d \<le> c_weight z)
                 \<and> valof (fadd (c_w z) margin_default) \<le> c_weight ex_G)"
    using first by blast
  then have lead: "valof (fadd (c_w ex_H) margin_default) \<le> c_weight ex_G"
    unfolding others by simp
  show ?thesis using first second fires leader outside lead exact by blast
qed

lemma bonus_values:
  "rough_layout_bonus raw \<in> set
     [dzero, fadd dzero d_0_2, fsub dzero d_0_6, fadd (fsub dzero d_0_6) d_0_2,
      fadd dzero d_0_4, fadd (fadd dzero d_0_4) d_0_2, fsub (fadd dzero d_0_4) d_0_6,
      fadd (fsub (fadd dzero d_0_4) d_0_6) d_0_2]"
  by (simp add: rough_layout_bonus_def Let_def)

lemma preferred_sums:
  "\<forall>r \<in> set [d_3_2, d_1_4]. \<forall>v \<in> set [d_3_6, d_2_4]. \<forall>b \<in> set
     [dzero, fadd dzero d_0_2, fsub dzero d_0_6, fadd (fsub dzero d_0_6) d_0_2,
      fadd dzero d_0_4, fadd (fadd dzero d_0_4) d_0_2, fsub (fadd dzero d_0_4) d_0_6,
      fadd (fsub (fadd dzero d_0_4) d_0_6) d_0_2].
     0 \<le> valof (fadd (fadd r v) b) \<and> valof (fadd (fadd r v) b) < 2 ^ 29"
  by code_simp

lemma preferred_weight_range:
  assumes "roi_tag \<in> PREFERRED_ROIS" and "var_tag \<in> PREFERRED_VARS"
  shows "0 \<le> valof (candidate_weight roi_tag var_tag raw)
       \<and> valof (candidate_weight roi_tag var_tag raw) < 2 ^ 29"
proof -
  have r: "get_or ROI_WEIGHT roi_tag dzero \<in> set [d_3_2, d_1_4]"
    using assms(1) by (auto simp: PREFERRED_ROIS_def ROI_WEIGHT_def get_or_def)
  have v: "get_or VARIANT_WEIGHT var_tag dzero \<in> set [d_3_6, d_2_4]"
    using assms(2) by (auto simp: PREFERRED_VARS_def VARIANT_WEIGHT_def get_or_def)
  show ?thesis
    unfolding candidate_weight_def Let_def
    using preferred_sums r v bonus_values[of raw] by blast
qed

text \<open>
  Claim C10, as stated: a single candidate from the preferred sets is returned whatever
  the margin. A margin of \<open>2e9\<close> refutes it: the candidate \<open>ex_A\<close>, of weight \<open>7.4\<close>, does
  not reach \<open>-1e9 + 2e9\<close>.
\<close>

theorem single_preferred_candidate_counterexample:
  "c_roi ex_A \<in> PREFERRED_ROIS \<and> c_var ex_A \<in> PREFERRED_VARS
   \<and> choose_elite_candidate [ex_A] margin_2e9 = None"
  by code_simp

text \<open>
  Claim C10, amended. For a list of exactly one candidate, from the preferred sets, the
  elite shortcut returns it exactly when its weight is at least the margin minus \<open>1e9\<close>,
  the weight \<open>-1e9\<close> being the one given to the absent runner-up. The sum is the one the
  program computes, the double nearest to the exact sum; for a margin that is a double and
  a weight from 0 to \<open>2^29\<close>, as is the weight of every candidate from the preferred sets
  (\<open>preferred_weight_range\<close>), the test has the same outcome with the exact sum.
\<close>

theorem single_preferred_candidate:
  "c_roi c \<in> PREFERRED_ROIS \<Longrightarrow> c_var c \<in> PREFERRED_VARS
     \<Longrightarrow> (choose_elite_candidate [c] m = Some c) = (valof (fadd d_minus_1e9 m) \<le> c_weight c)
         \<and> (is_double m \<and> 0 \<le> c_weight c \<and> c_weight c < 2 ^ 29 \<longrightarrow>
               (choose_elite_candidate [c] m = Some c) = (- 1000000000 + valof m \<le> c_weight c))"
proof (intro conjI impI)
  assume "c_roi c \<in> PREFERRED_ROIS" and "c_var c \<in> PREFERRED_VARS"
  then show fires: "(choose_elite_candidate [c] m = Some c) = (valof (fadd d_minus_1e9 m) \<le> c_weight c)"
    by (simp add: choose_elite_candidate_def Let_def)
  assume "is_double m \<and> 0 \<le> c_weight c \<and> c_weight c < 2 ^ 29"
  then have "(valof (fadd d_minus_1e9 m) \<le> c_weight c) = (- 1000000000 + valof m \<le> c_weight c)"
    by (intro absent_runner_up_exact) simp_all
  then show "(choose_elite_candidate [c] m = Some c) = (- 1000000000 + valof m \<le> c_weight c)"
    by (simp only: fires)
qed

theorem single_preferred_candidate_witness:
  "c_roi ex_A \<in> PREFERRED_ROIS \<and> c_var ex_A \<in> PREFERRED_VARS
   \<and> is_double margin_default \<and> 0 \<le> c_weight ex_A \<and> c_weight ex_A < 2 ^ 29
   \<and> - 1000000000 + valof margin_default \<le> c_weight ex_A
   \<and> valof (fadd d_minus_1e9 margin_default) \<le> c_weight ex_A
   \<and> choose_elite_candidate [ex_A] margin_default = Some ex_A"
proof -
  have r: "c_roi ex_A \<in> PREFERRED_ROIS" by (simp add: ex_A_def PREFERRED_ROIS_def)
  have v: "c_var ex_A \<in> PREFERRED_VARS" by (simp add: ex_A_def PREFERRED_VARS_def)
  have d: "is_double margin_default" by (simp add: is_double_def margin_default_def d_0_8_def)
  have w: "0 \<le> c_weight ex_A" "c_weight ex_A < 2 ^ 29"
    by (simp_all add: c_weight_def ex_A_def pow2_def)
  have e: "- 1000000000 + valof margin_default \<le> c_weight ex_A"
    by (simp add: c_weight_def ex_A_def margin_default_def d_0_8_def pow2_def)
  note both = single_preferred_candidate [OF r v, of margin_default]
  from both d w e have fires: "choose_elite_candidate [ex_A] margin_default = Some ex_A" by blast
  with both have "valof (fadd d_minus_1e9 margin_default) \<le> c_weight ex_A" by blast
  then show ?thesis using r v d w e fires by blast
qed

section \<open>The weighted mode\<close>

lemma tally_add_keys: "map fst (tally_add t v x) = (if v \<in> fst ` set t then map fst t else map fst t @ [v])"
  by (induction t v x rule: tally_add.induct) auto

lemma tally_add_distinct: "distinct (map fst t) \<Longrightarrow> distinct (map fst (tally_add t v x))"
  by (simp add: tally_add_keys)

lemma tally_add_map_of:
  "map_of (tally_add t v x) u =
     (if u = v then Some (fadd (case map_of t v of None \<Rightarrow> dzero | Some s \<Rightarrow> s) x) else map_of t u)"
  by (induction t v x rule: tally_add.induct) auto

lemma sum_from_Cons:
  "sum_from s ((v, x) # vws) u =
     (if v = u \<and> 0 < valof x then sum_from (fadd s x) vws u else sum_from s vws u)"
  by (simp add: sum_from_def)

lemma sum_from_Nil: "sum_from s [] u = s"
  by (simp add: sum_from_def)

lemma has_positive_Cons:
  "has_positive ((v, x) # vws) u = ((v = u \<and> 0 < valof x) \<or> has_positive vws u)"
  by (simp add: has_positive_def)

lemma has_positive_Nil: "\<not> has_positive [] u"
  by (simp add: has_positive_def)

lemma tally_fold:
  assumes "distinct (map fst t)"
  shows "distinct (map fst (foldl (\<lambda>t (v, x). if valof x > 0 then tally_add t v x else t) t vws))
    \<and> map_of (foldl (\<lambda>t (v, x). if valof x > 0 then tally_add t v x else t) t vws) u =
        (case map_of t u of
           None \<Rightarrow> if has_positive vws u then Some (sum_from dzero vws u) else None
         | Some s \<Rightarrow> Some (sum_from s vws u))"
  using assms
proof (induction vws arbitrary: t)
  case Nil
  then show ?case by (simp add: sum_from_Nil has_positive_Nil split: option.splits)
next
  case (Cons p vws)
  obtain v x where p: "p = (v, x)" by (cases p)
  show ?case
  proof (cases "valof x > 0")
    case True
    have d: "distinct (map fst (tally_add t v x))" using Cons.prems by (rule tally_add_distinct)
    show ?thesis
      using Cons.IH[OF d] True p
      by (auto simp: tally_add_map_of sum_from_Cons has_positive_Cons split: option.splits)
  next
    case False
    show ?thesis
      using Cons.IH[OF Cons.prems] False p
      by (auto simp: sum_from_Cons has_positive_Cons split: option.splits)
  qed
qed

lemma tally_of_distinct: "distinct (map fst (tally_of vws))"
  unfolding tally_of_def using tally_fold[of "[]" vws] by simp

lemma tally_of_map_of:
  "map_of (tally_of vws) u = (if has_positive vws u then Some (summed_weight vws u) else None)"
  unfolding tally_of_def summed_weight_def using tally_fold[of "[]" vws u] by simp

lemma tally_of_mem:
  "(u, s) \<in> set (tally_of vws) \<longleftrightarrow> has_positive vws u \<and> s = summed_weight vws u"
  using tally_of_distinct[of vws] tally_of_map_of[of vws u]
  by (metis map_of_eq_Some_iff option.discI option.inject)

lemma top_key_None: "top_key t = None \<longleftrightarrow> t = []"
proof -
  have "sort_key (\<lambda>kv. (- valof (snd kv), fst kv)) t = [] \<longleftrightarrow> t = []"
    by (metis length_0_conv length_sort)
  then show ?thesis by (auto simp: top_key_def split: list.splits)
qed

lemma top_key_Some:
  fixes t :: "('a::linorder \<times> double) list"
  assumes "top_key t = Some k"
  shows "\<exists>s. (k, s) \<in> set t
           \<and> (\<forall>(k', s') \<in> set t. valof s' < valof s \<or> (valof s' = valof s \<and> k \<le> k'))"
proof -
  let ?g = "\<lambda>kv::'a \<times> double. (- valof (snd kv), fst kv)"
  from assms obtain kv ys where srt: "sort_key ?g t = kv # ys" and k: "k = fst kv"
    by (auto simp: top_key_def split: list.splits)
  have mem: "kv \<in> set t" and least: "\<forall>x \<in> set t. ?g kv \<le> ?g x"
    using sort_key_head_min[OF srt] by auto
  have "\<forall>(k', s') \<in> set t. valof s' < valof (snd kv) \<or> (valof s' = valof (snd kv) \<and> k \<le> k')"
  proof (clarify)
    fix k' s' assume "(k', s') \<in> set t" and n: "\<not> (valof s' = valof (snd kv) \<and> k \<le> k')"
    then have "?g kv \<le> ?g (k', s')" using least by blast
    then show "valof s' < valof (snd kv)" using k n by (auto simp: less_eq_prod_def)
  qed
  moreover have "(k, snd kv) \<in> set t" using mem k by simp
  ultimately show ?thesis by blast
qed

lemma weighted_mode_None:
  "weighted_mode vals ws = None \<longleftrightarrow> (\<forall>u. \<not> has_positive (zip vals ws) u)"
proof -
  have "tally_of (zip vals ws) = [] \<longleftrightarrow> (\<forall>u. \<not> has_positive (zip vals ws) u)"
  proof
    assume "tally_of (zip vals ws) = []"
    then show "\<forall>u. \<not> has_positive (zip vals ws) u"
      using tally_of_map_of[of "zip vals ws"] by (metis map_of.simps(1) option.discI)
  next
    assume h: "\<forall>u. \<not> has_positive (zip vals ws) u"
    show "tally_of (zip vals ws) = []"
    proof (cases "tally_of (zip vals ws)")
      case Nil then show ?thesis .
    next
      case (Cons p r)
      then have "(fst p, snd p) \<in> set (tally_of (zip vals ws))" by simp
      then show ?thesis using h tally_of_mem by metis
    qed
  qed
  then show ?thesis by (simp add: weighted_mode_def top_key_None)
qed

lemma weighted_mode_Some:
  assumes "weighted_mode vals ws = Some v"
  shows "has_positive (zip vals ws) v"
    and "has_positive (zip vals ws) u \<Longrightarrow>
           valof (summed_weight (zip vals ws) u) < valof (summed_weight (zip vals ws) v)
           \<or> (valof (summed_weight (zip vals ws) u) = valof (summed_weight (zip vals ws) v) \<and> v \<le> u)"
proof -
  from assms obtain s where s: "(v, s) \<in> set (tally_of (zip vals ws))"
    and best: "\<forall>(k', s') \<in> set (tally_of (zip vals ws)).
                 valof s' < valof s \<or> (valof s' = valof s \<and> v \<le> k')"
    unfolding weighted_mode_def using top_key_Some by blast
  from s show "has_positive (zip vals ws) v" by (simp add: tally_of_mem)
  from s have sv: "s = summed_weight (zip vals ws) v" by (simp add: tally_of_mem)
  assume "has_positive (zip vals ws) u"
  then have "(u, summed_weight (zip vals ws) u) \<in> set (tally_of (zip vals ws))"
    by (simp add: tally_of_mem)
  with best sv show "valof (summed_weight (zip vals ws) u) < valof (summed_weight (zip vals ws) v)
           \<or> (valof (summed_weight (zip vals ws) u) = valof (summed_weight (zip vals ws) v) \<and> v \<le> u)"
    by blast
qed

lemma has_positive_mem: "has_positive vws v \<longleftrightarrow> (\<exists>x. (v, x) \<in> set vws \<and> 0 < valof x)"
  by (auto simp: has_positive_def list_ex_iff)

lemma weighted_mode_in_values:
  assumes "weighted_mode vals ws = Some v"
  shows "v \<in> set vals"
proof -
  from weighted_mode_Some(1)[OF assms] obtain x where "(v, x) \<in> set (zip vals ws)"
    by (auto simp: has_positive_mem)
  then show ?thesis by (rule set_zip_leftD)
qed

section \<open>Selection\<close>

lemma vote_columns_nth:
  "vote_columns cols ws = Some voted \<Longrightarrow>
     length voted = length cols \<and> (\<forall>i < length cols. weighted_mode (cols ! i) ws = Some (voted ! i))"
proof (induction cols arbitrary: voted)
  case Nil
  then show ?case by simp
next
  case (Cons col cols)
  from Cons.prems obtain v vs where v: "weighted_mode col ws = Some v"
    and vs: "vote_columns cols ws = Some vs" and voted: "voted = v # vs"
    by (auto split: option.splits)
  from Cons.IH[OF vs] show ?case using v voted by (auto simp: nth_Cons split: nat.splits)
qed

lemma vote_columns_Some:
  "\<forall>col \<in> set cols. weighted_mode col ws \<noteq> None \<Longrightarrow> \<exists>voted. vote_columns cols ws = Some voted"
  by (induction cols) auto

lemma field_columns_nth:
  "ps \<noteq> [] \<Longrightarrow> length (field_columns ps) = 6
     \<and> (\<forall>i < 6. field_columns ps ! i = map (\<lambda>p. parts_fields p ! i) ps)"
  by (simp add: field_columns_def)

lemma field_column_votes:
  assumes "cs \<noteq> []" and "i < 6"
  shows "zip (field_columns (map c_parts cs) ! i) (map c_w cs) = field_votes cs i"
proof -
  have "map c_parts cs \<noteq> []" using assms(1) by simp
  then have "field_columns (map c_parts cs) ! i = map (\<lambda>p. parts_fields p ! i) (map c_parts cs)"
    using field_columns_nth assms(2) by blast
  then show ?thesis by (simp add: field_votes_def comp_def)
qed

lemma field_votes_positive:
  assumes "c \<in> set cs" and "0 < c_weight c"
  shows "has_positive (field_votes cs i) (parts_fields (c_parts c) ! i)"
proof -
  have "field_votes cs i = map (\<lambda>c. (parts_fields (c_parts c) ! i, c_w c)) cs"
    by (simp add: field_votes_def zip_map_map zip_same_conv_map)
  then have "(parts_fields (c_parts c) ! i, c_w c) \<in> set (field_votes cs i)"
    using assms(1) by auto
  then show ?thesis using assms(2) by (auto simp: has_positive_mem c_weight_def)
qed

lemma no_positive_no_vote:
  assumes "cs \<noteq> []" and "\<forall>c \<in> set cs. c_weight c \<le> 0"
  shows "choose_by_weighted_fields cs = Inr (None, None)"
proof -
  obtain col cols where cols: "field_columns (map c_parts cs) = col # cols"
    using assms(1) field_columns_nth[of "map c_parts cs"]
    by (cases "field_columns (map c_parts cs)") auto
  have "\<forall>u. \<not> has_positive (zip col (map c_w cs)) u"
    using assms(2) by (fastforce simp: has_positive_mem c_weight_def dest: set_zip_rightD)
  then have "weighted_mode col (map c_w cs) = None" by (simp add: weighted_mode_None)
  then show ?thesis by (simp add: choose_by_weighted_fields_def cols)
qed

lemma positive_vote:
  assumes "cs \<noteq> []" and "c \<in> set cs" and "0 < c_weight c"
  shows "\<exists>voted. vote_columns (field_columns (map c_parts cs)) (map c_w cs) = Some voted"
proof (rule vote_columns_Some, rule ballI)
  fix col assume "col \<in> set (field_columns (map c_parts cs))"
  then obtain i where i: "i < 6" and col: "col = field_columns (map c_parts cs) ! i"
    using field_columns_nth[of "map c_parts cs"] assms(1) by (metis in_set_conv_nth map_is_Nil_conv)
  have "has_positive (zip col (map c_w cs)) (parts_fields (c_parts c) ! i)"
    unfolding col field_column_votes[OF assms(1) i] using assms(2,3) by (rule field_votes_positive)
  then show "weighted_mode col (map c_w cs) \<noteq> None" using weighted_mode_None by blast
qed

lemma weighted_fields_voted:
  assumes "cs \<noteq> []"
    and "vote_columns (field_columns (map c_parts cs)) (map c_w cs) = Some voted"
  shows "length voted = 6"
    and "choose_by_weighted_fields cs =
           (case py_datetime (voted ! 0) (voted ! 1) (voted ! 2) (voted ! 3) (voted ! 4) (voted ! 5) of
              None \<Rightarrow> Inr (choose_by_weighted_whole_string cs)
            | Some consensus \<Rightarrow> Inr (Some consensus, pick_representative cs consensus))"
proof -
  show len: "length voted = 6"
    using vote_columns_nth[OF assms(2)] field_columns_nth[of "map c_parts cs"] assms(1) by auto
  then obtain y M d h mm ss where voted: "voted = [y, M, d, h, mm, ss]"
    by (auto simp: length_Suc_conv eval_nat_numeral)
  show "choose_by_weighted_fields cs =
           (case py_datetime (voted ! 0) (voted ! 1) (voted ! 2) (voted ! 3) (voted ! 4) (voted ! 5) of
              None \<Rightarrow> Inr (choose_by_weighted_whole_string cs)
            | Some consensus \<Rightarrow> Inr (Some consensus, pick_representative cs consensus))"
    using assms(2) unfolding voted by (simp add: choose_by_weighted_fields_def split: option.splits)
qed

lemma whole_string_mem:
  assumes "choose_by_weighted_whole_string cs = (Some t, r)"
  shows "\<exists>c \<in> set cs. t = c_dt c \<and> r = Some c"
proof -
  from assms obtain k rep ys where
    "sort_key (\<lambda>c. (- c_weight c, c_roi c)) (filter (\<lambda>c. c_canon c = k) cs) = rep # ys"
    and t: "t = c_dt rep" and r: "r = Some rep"
    by (auto simp: choose_by_weighted_whole_string_def split: option.splits list.splits)
  then have "rep \<in> set (filter (\<lambda>c. c_canon c = k) cs)" using sort_key_head_min(1) by metis
  then show ?thesis using t r by auto
qed

lemma whole_string_None:
  "choose_by_weighted_whole_string cs = (None, r) \<Longrightarrow> r = None"
  by (auto simp: choose_by_weighted_whole_string_def split: option.splits list.splits)

lemma weighted_fields_cases:
  assumes "cs \<noteq> []" and "choose_by_weighted_fields cs = Inr (Some t, r)"
  shows "(\<exists>c \<in> set cs. t = c_dt c)
       \<or> (\<forall>i < 6. \<exists>c \<in> set cs. dt_fields t ! i = parts_fields (c_parts c) ! i)"
proof (cases "vote_columns (field_columns (map c_parts cs)) (map c_w cs)")
  case None
  then show ?thesis using assms(2) by (simp add: choose_by_weighted_fields_def)
next
  case (Some voted)
  have len: "length voted = 6"
    and win: "\<forall>i < 6. weighted_mode (map (\<lambda>p. parts_fields p ! i) (map c_parts cs)) (map c_w cs)
                       = Some (voted ! i)"
    using vote_columns_nth[OF Some] field_columns_nth[of "map c_parts cs"] assms(1) by auto
  from len obtain y M d h mm ss where voted: "voted = [y, M, d, h, mm, ss]"
    by (auto simp: length_Suc_conv eval_nat_numeral)
  show ?thesis
  proof (cases "py_datetime y M d h mm ss")
    case None
    then have "choose_by_weighted_whole_string cs = (Some t, r)"
      using assms(2) Some voted by (simp add: choose_by_weighted_fields_def)
    then show ?thesis using whole_string_mem by blast
  next
    case (Some consensus)
    then have t: "t = Datetime y M d h mm ss"
      using assms(2) \<open>vote_columns _ _ = Some voted\<close> voted
      by (auto simp: choose_by_weighted_fields_def py_datetime_def split: if_splits)
    have "\<forall>i < 6. \<exists>c \<in> set cs. dt_fields t ! i = parts_fields (c_parts c) ! i"
    proof (intro allI impI)
      fix i :: nat assume i: "i < 6"
      then have "voted ! i \<in> set (map (\<lambda>p. parts_fields p ! i) (map c_parts cs))"
        using win weighted_mode_in_values by blast
      then obtain c where "c \<in> set cs" and "voted ! i = parts_fields (c_parts c) ! i" by auto
      moreover have "dt_fields t = voted" by (simp add: t voted dt_fields_def)
      ultimately show "\<exists>c \<in> set cs. dt_fields t ! i = parts_fields (c_parts c) ! i" by auto
    qed
    then show ?thesis ..
  qed
qed

lemma weighted_fields_no_error: "cs \<noteq> [] \<Longrightarrow> \<exists>res. choose_by_weighted_fields cs = Inr res"
proof (cases "vote_columns (field_columns (map c_parts cs)) (map c_w cs)")
  case None
  then show ?thesis by (simp add: choose_by_weighted_fields_def)
next
  case (Some voted)
  assume "cs \<noteq> []"
  then have "length voted = 6"
    using vote_columns_nth[OF Some] field_columns_nth[of "map c_parts cs"] by auto
  then obtain y M d h mm ss where "voted = [y, M, d, h, mm, ss]"
    by (auto simp: length_Suc_conv eval_nat_numeral)
  then show ?thesis using Some by (simp add: choose_by_weighted_fields_def split: option.splits)
qed

lemma select_nonpositive:
  assumes "cs \<noteq> []" and "\<forall>c \<in> set cs. c_weight c \<le> 0"
  shows "\<exists>t. first_max c_weight cs t \<and> process_image_select cs m = Inr (Some (c_dt t), c_raw t)"
proof -
  obtain c0 cr where cs: "cs = c0 # cr" using assms(1) by (cases cs) auto
  show ?thesis
  proof (cases "choose_elite_candidate cs m")
    case (Some e)
    then have "first_max c_weight cs e" by (rule choose_elite_Some(1))
    moreover have "process_image_select cs m = Inr (Some (c_dt e), c_raw e)"
      using Some cs by (simp add: process_image_select_def)
    ultimately show ?thesis by blast
  next
    case None
    have "first_max c_weight cs (py_max_by c_weight c0 cr)" unfolding cs by (rule py_max_by_first_max)
    moreover have "process_image_select cs m
                     = Inr (Some (c_dt (py_max_by c_weight c0 cr)), c_raw (py_max_by c_weight c0 cr))"
      using None no_positive_no_vote[OF assms] cs
      by (simp add: process_image_select_def bind_err_def Let_def)
    ultimately show ?thesis by blast
  qed
qed

lemma select_fields_from_candidates:
  assumes "\<forall>c \<in> set cs. wf_cand c" and "process_image_select cs m = Inr (Some t, r)"
  shows "\<forall>i < 6. \<exists>c \<in> set cs. dt_fields t ! i = dt_fields (c_dt c) ! i"
proof -
  from assms(2) obtain c0 cr where cs: "cs = c0 # cr"
    by (cases cs) (auto simp: process_image_select_def)
  then have ne: "cs \<noteq> []" by simp
  have whole: "\<exists>c \<in> set cs. t = c_dt c \<Longrightarrow> ?thesis" by auto
  show ?thesis
  proof (cases "choose_elite_candidate cs m")
    case (Some e)
    then have "e \<in> set cs" by (metis choose_elite_Some(1) first_max_mem)
    moreover have "t = c_dt e" using Some assms(2) cs by (simp add: process_image_select_def)
    ultimately show ?thesis using whole by blast
  next
    case None
    obtain dto rep where res: "choose_by_weighted_fields cs = Inr (dto, rep)"
      using weighted_fields_no_error[OF ne] by (metis surj_pair)
    show ?thesis
    proof (cases dto)
      case None
      have "py_max_by c_weight c0 cr \<in> set cs"
        using py_max_by_first_max[of c_weight c0 cr] first_max_mem cs by metis
      moreover have "t = c_dt (py_max_by c_weight c0 cr)"
        using \<open>choose_elite_candidate cs m = None\<close> res None assms(2) cs
        by (simp add: process_image_select_def bind_err_def Let_def)
      ultimately show ?thesis using whole by blast
    next
      case (Some u)
      then have "t = u"
        using \<open>choose_elite_candidate cs m = None\<close> res assms(2) cs
        by (simp add: process_image_select_def bind_err_def Let_def)
      then have "choose_by_weighted_fields cs = Inr (Some t, rep)" using res Some by simp
      from weighted_fields_cases[OF ne this] show ?thesis
        using whole assms(1) by (auto simp: wf_cand_def)
    qed
  qed
qed

lemma ex_vote_winners:
  "weighted_mode (field_columns (map c_parts [ex_B, ex_I, ex_J]) ! 0) (map c_w [ex_B, ex_I, ex_J]) = Some 2024"
  "weighted_mode (field_columns (map c_parts [ex_B, ex_I, ex_J]) ! 1) (map c_w [ex_B, ex_I, ex_J]) = Some 8"
  "weighted_mode (field_columns (map c_parts [ex_B, ex_I, ex_J]) ! 2) (map c_w [ex_B, ex_I, ex_J]) = Some 1"
  "weighted_mode (field_columns (map c_parts [ex_B, ex_I, ex_J]) ! 3) (map c_w [ex_B, ex_I, ex_J]) = Some 6"
  "weighted_mode (field_columns (map c_parts [ex_B, ex_I, ex_J]) ! 4) (map c_w [ex_B, ex_I, ex_J]) = Some 31"
  "weighted_mode (field_columns (map c_parts [ex_B, ex_I, ex_J]) ! 5) (map c_w [ex_B, ex_I, ex_J]) = Some 27"
  by code_simp+

text \<open>
  Claim C6. When the candidate list is not empty and no candidate has a positive weight,
  the selection at the end of \<open>process_image\<close> returns the timestamp and the raw text of
  the candidate of greatest weight (the first of them), and never the empty result.
\<close>

theorem absolute_fallback:
  "cs \<noteq> [] \<Longrightarrow> \<forall>c \<in> set cs. c_weight c \<le> 0
     \<Longrightarrow> \<exists>t. top_weight_candidate cs = Some t
             \<and> process_image_select cs m = Inr (Some (c_dt t), c_raw t)"
  using select_nonpositive top_weight_first_max by blast

theorem absolute_fallback_witness:
  "[ex_F, ex_E] \<noteq> [] \<and> c_weight ex_F \<le> 0 \<and> c_weight ex_E \<le> 0
   \<and> top_weight_candidate [ex_F, ex_E] = Some ex_E
   \<and> process_image_select [ex_F, ex_E] margin_default = Inr (Some (c_dt ex_E), c_raw ex_E)"
proof -
  have ne: "[ex_F, ex_E] \<noteq> []" by simp
  have wF: "c_weight ex_F \<le> 0" and wE: "c_weight ex_E \<le> 0"
    by (simp_all add: c_weight_def ex_E_def ex_F_def pow2_def)
  then have np: "\<forall>c \<in> set [ex_F, ex_E]. c_weight c \<le> 0" by simp
  have tw: "top_weight_candidate [ex_F, ex_E] = Some ex_E"
    by (simp add: top_weight_candidate_def c_weight_def ex_E_def ex_F_def pow2_def)
  from absolute_fallback [OF ne np, of margin_default] tw
  have "process_image_select [ex_F, ex_E] margin_default = Inr (Some (c_dt ex_E), c_raw ex_E)" by auto
  then show ?thesis using wF wE tw by simp
qed

text \<open>
  Claim C4. In \<open>choose_by_weighted_fields\<close> the tally of a field holds exactly the values
  that come with a positive weight, each with the sum of its positive weights, added up as
  doubles in the order of the candidates. With no positive weight there is no vote. With
  one, every field has a winner, a value of greatest sum and among the values of equal sum
  the smallest, and the result is made from the six winners: the date they form with its
  representative, or the whole-string vote when they form no date.
\<close>

theorem weighted_field_vote:
  assumes "cs \<noteq> []"
  shows "(\<forall>i < 6. \<forall>u s. (u, s) \<in> set (tally_of (field_votes cs i))
             \<longleftrightarrow> has_positive (field_votes cs i) u \<and> s = summed_weight (field_votes cs i) u)
       \<and> ((\<forall>c \<in> set cs. c_weight c \<le> 0) \<longrightarrow> choose_by_weighted_fields cs = Inr (None, None))
       \<and> ((\<exists>c \<in> set cs. 0 < c_weight c) \<longrightarrow>
            (\<exists>voted. length voted = 6
               \<and> (\<forall>i < 6. weighted_mode (field_columns (map c_parts cs) ! i) (map c_w cs)
                              = Some (voted ! i)
                     \<and> has_positive (field_votes cs i) (voted ! i)
                     \<and> (\<forall>u. has_positive (field_votes cs i) u \<longrightarrow>
                           valof (summed_weight (field_votes cs i) u)
                             < valof (summed_weight (field_votes cs i) (voted ! i))
                           \<or> (valof (summed_weight (field_votes cs i) u)
                                = valof (summed_weight (field_votes cs i) (voted ! i))
                               \<and> voted ! i \<le> u)))
               \<and> choose_by_weighted_fields cs =
                   (case py_datetime (voted ! 0) (voted ! 1) (voted ! 2) (voted ! 3) (voted ! 4)
                           (voted ! 5) of
                      None \<Rightarrow> Inr (choose_by_weighted_whole_string cs)
                    | Some consensus \<Rightarrow> Inr (Some consensus, pick_representative cs consensus))))"
proof (intro conjI impI)
  show "\<forall>i < 6. \<forall>u s. (u, s) \<in> set (tally_of (field_votes cs i))
             \<longleftrightarrow> has_positive (field_votes cs i) u \<and> s = summed_weight (field_votes cs i) u"
    by (simp add: tally_of_mem)
next
  assume "\<forall>c \<in> set cs. c_weight c \<le> 0"
  with assms show "choose_by_weighted_fields cs = Inr (None, None)" by (rule no_positive_no_vote)
next
  assume "\<exists>c \<in> set cs. 0 < c_weight c"
  then obtain c where c: "c \<in> set cs" "0 < c_weight c" by blast
  obtain voted where v: "vote_columns (field_columns (map c_parts cs)) (map c_w cs) = Some voted"
    using positive_vote[OF assms c] by blast
  have len: "length (field_columns (map c_parts cs)) = 6"
    using field_columns_nth[of "map c_parts cs"] assms by simp
  have win: "\<forall>i < 6. weighted_mode (field_columns (map c_parts cs) ! i) (map c_w cs)
                       = Some (voted ! i)"
    using vote_columns_nth[OF v] len by simp
  have "\<forall>i < 6. weighted_mode (field_columns (map c_parts cs) ! i) (map c_w cs)
                              = Some (voted ! i)
                     \<and> has_positive (field_votes cs i) (voted ! i)
                     \<and> (\<forall>u. has_positive (field_votes cs i) u \<longrightarrow>
                           valof (summed_weight (field_votes cs i) u)
                             < valof (summed_weight (field_votes cs i) (voted ! i))
                           \<or> (valof (summed_weight (field_votes cs i) u)
                                = valof (summed_weight (field_votes cs i) (voted ! i))
                               \<and> voted ! i \<le> u))"
  proof (intro allI impI conjI)
    fix i :: nat assume i: "i < 6"
    show w: "weighted_mode (field_columns (map c_parts cs) ! i) (map c_w cs) = Some (voted ! i)"
      using win i by blast
    show "has_positive (field_votes cs i) (voted ! i)"
      using weighted_mode_Some(1)[OF w] unfolding field_column_votes[OF assms i] .
    fix u assume "has_positive (field_votes cs i) u"
    then have "has_positive (zip (field_columns (map c_parts cs) ! i) (map c_w cs)) u"
      unfolding field_column_votes[OF assms i] .
    from weighted_mode_Some(2)[OF w this]
    show "valof (summed_weight (field_votes cs i) u)
            < valof (summed_weight (field_votes cs i) (voted ! i))
          \<or> (valof (summed_weight (field_votes cs i) u)
               = valof (summed_weight (field_votes cs i) (voted ! i))
              \<and> voted ! i \<le> u)"
      unfolding field_column_votes[OF assms i] .
  qed
  then show "\<exists>voted. length voted = 6
               \<and> (\<forall>i < 6. weighted_mode (field_columns (map c_parts cs) ! i) (map c_w cs)
                              = Some (voted ! i)
                     \<and> has_positive (field_votes cs i) (voted ! i)
                     \<and> (\<forall>u. has_positive (field_votes cs i) u \<longrightarrow>
                           valof (summed_weight (field_votes cs i) u)
                             < valof (summed_weight (field_votes cs i) (voted ! i))
                           \<or> (valof (summed_weight (field_votes cs i) u)
                                = valof (summed_weight (field_votes cs i) (voted ! i))
                               \<and> voted ! i \<le> u)))
               \<and> choose_by_weighted_fields cs =
                   (case py_datetime (voted ! 0) (voted ! 1) (voted ! 2) (voted ! 3) (voted ! 4)
                           (voted ! 5) of
                      None \<Rightarrow> Inr (choose_by_weighted_whole_string cs)
                    | Some consensus \<Rightarrow> Inr (Some consensus, pick_representative cs consensus))"
    using weighted_fields_voted[OF assms v] by blast
qed

theorem weighted_field_vote_witness:
  "[ex_B, ex_I, ex_J] \<noteq> [] \<and> ex_B \<in> set [ex_B, ex_I, ex_J] \<and> 0 < c_weight ex_B
   \<and> has_positive (field_votes [ex_B, ex_I, ex_J] 5) 28
   \<and> valof (summed_weight (field_votes [ex_B, ex_I, ex_J] 5) 28)
       = valof (summed_weight (field_votes [ex_B, ex_I, ex_J] 5) 27)
   \<and> c_weight ex_I < c_weight ex_B + c_weight ex_J
   \<and> choose_by_weighted_fields [ex_B, ex_I, ex_J]
       = Inr (Some (Datetime 2024 8 1 6 31 27),
              pick_representative [ex_B, ex_I, ex_J] (Datetime 2024 8 1 6 31 27))"
proof -
  have ne: "[ex_B, ex_I, ex_J] \<noteq> []" by simp
  have pos: "0 < c_weight ex_B" by (simp add: c_weight_def ex_B_def pow2_def)
  then have some: "\<exists>c \<in> set [ex_B, ex_I, ex_J]. 0 < c_weight c" by simp
  have hp: "has_positive (field_votes [ex_B, ex_I, ex_J] 5) 28" by code_simp
  have tie: "valof (summed_weight (field_votes [ex_B, ex_I, ex_J] 5) 28)
               = valof (summed_weight (field_votes [ex_B, ex_I, ex_J] 5) 27)"
    by code_simp
  have exact: "c_weight ex_I < c_weight ex_B + c_weight ex_J"
    by (simp add: c_weight_def ex_B_def ex_I_def ex_J_def pow2_def)
  note vote = weighted_field_vote [OF ne, THEN conjunct2, THEN conjunct2, rule_format, OF some]
  then obtain voted where len: "length voted = 6"
    and win: "\<forall>i < 6. weighted_mode (field_columns (map c_parts [ex_B, ex_I, ex_J]) ! i)
                         (map c_w [ex_B, ex_I, ex_J]) = Some (voted ! i)"
    and res: "choose_by_weighted_fields [ex_B, ex_I, ex_J] =
                (case py_datetime (voted ! 0) (voted ! 1) (voted ! 2) (voted ! 3) (voted ! 4)
                        (voted ! 5) of
                   None \<Rightarrow> Inr (choose_by_weighted_whole_string [ex_B, ex_I, ex_J])
                 | Some consensus \<Rightarrow>
                     Inr (Some consensus, pick_representative [ex_B, ex_I, ex_J] consensus))"
    by blast
  have v: "voted ! 0 = 2024" "voted ! 1 = 8" "voted ! 2 = 1" "voted ! 3 = 6" "voted ! 4 = 31"
    "voted ! 5 = 27"
    using win ex_vote_winners by (simp_all add: eval_nat_numeral)
  have d: "py_datetime 2024 8 1 6 31 27 = Some (Datetime 2024 8 1 6 31 27)" by code_simp
  have "choose_by_weighted_fields [ex_B, ex_I, ex_J]
          = Inr (Some (Datetime 2024 8 1 6 31 27),
                 pick_representative [ex_B, ex_I, ex_J] (Datetime 2024 8 1 6 31 27))"
    using res unfolding v d by simp
  then show ?thesis using ne pos hp tie exact by simp
qed

section \<open>The parser returns a date made from its fields\<close>

lemma consistent_fields: "consistent (Inr (fields_result y M d h m s))"
  by (auto simp: consistent_def fields_result_def py_datetime_def dt_fields_def parts_fields_def)

lemma consistent_none: "consistent (Inr None)" and consistent_error: "consistent (Inl e)"
  by (simp_all add: consistent_def)

lemma consistent_or_else: "consistent a \<Longrightarrow> consistent b \<Longrightarrow> consistent (or_else a b)"
  by (auto simp: consistent_def or_else_def split: sum.splits option.splits)

lemma consistent_six_fields: "consistent (six_fields caps)"
  unfolding six_fields_def
  by (auto simp: consistent_fields consistent_error split: list.splits)

lemma consistent_stage_search: "consistent (stage_search pat t)"
  unfolding stage_search_def
  by (auto simp: consistent_six_fields consistent_none split: option.splits)

lemma consistent_stage_anchor: "consistent (stage_anchor t)"
  unfolding stage_anchor_def
  by (auto simp: consistent_fields consistent_none consistent_error split: option.splits list.splits)

lemma consistent_grab_fields_loose: "consistent (grab_fields_loose t)"
  unfolding grab_fields_loose_def bind_err_def
  by (auto simp: consistent_fields consistent_none consistent_error
      split: option.splits list.splits sum.splits)

lemma consistent_strict_fallbacks: "consistent (strict_fallbacks pats t)"
  by (induction pats) (auto simp: consistent_none consistent_or_else consistent_stage_search)

lemma consistent_parse: "consistent (parse_timestamp_flex raw)"
  unfolding parse_timestamp_flex_def Let_def
  by (auto intro!: consistent_or_else consistent_stage_anchor consistent_stage_search
      consistent_grab_fields_loose consistent_strict_fallbacks simp: consistent_none)

lemma candidate_of_wf: "candidate_of roi_tag vtag text = Inr (Some c) \<Longrightarrow> wf_cand c"
  using consistent_parse[of "replace_char newline CHR '' '' (strip text)"]
  by (auto simp: candidate_of_def bind_err_def consistent_def wf_cand_def Let_def
      split: sum.splits option.splits)

lemma collect_loop_wf: "collect_loop ocr roi_tag vs = Inr cs \<Longrightarrow> \<forall>c \<in> set cs. wf_cand c"
proof (induction vs arbitrary: cs)
  case Nil
  then show ?case by simp
next
  case (Cons v vs)
  obtain vtag im where v: "v = (vtag, im)" by (cases v)
  from Cons.prems obtain c ds where c: "candidate_of roi_tag vtag (ocr im) = Inr c"
    and ds: "collect_loop ocr roi_tag vs = Inr ds"
    and cs: "cs = (case c of None \<Rightarrow> [] | Some x \<Rightarrow> [x]) @ ds"
    by (auto simp: v bind_err_def split: sum.splits)
  show ?case using Cons.IH[OF ds] c cs candidate_of_wf by (auto split: option.splits)
qed

lemma collect_all_wf: "collect_all cv ocr rois = Inr cs \<Longrightarrow> \<forall>c \<in> set cs. wf_cand c"
proof (induction rois arbitrary: cs)
  case Nil
  then show ?case by simp
next
  case (Cons r rois)
  obtain rtag roi where r: "r = (rtag, roi)" by (cases r)
  from Cons.prems obtain xs ds where xs: "collect_candidates_from_roi cv ocr roi rtag = Inr xs"
    and ds: "collect_all cv ocr rois = Inr ds" and cs: "cs = xs @ ds"
    by (auto simp: r bind_err_def split: sum.splits)
  have "\<forall>c \<in> set xs. wf_cand c"
    using xs collect_loop_wf by (simp add: collect_candidates_from_roi_def)
  then show ?case using Cons.IH[OF ds] cs by auto
qed

lemma image_candidates_wf: "image_candidates cv ocr gray = Inr cs \<Longrightarrow> \<forall>c \<in> set cs. wf_cand c"
  unfolding image_candidates_def Let_def
  by (auto dest: collect_all_wf split: prod.splits)

section \<open>One image, from the pixels to the timestamp\<close>

lemma ex_banner: "find_top_black_banner ex_gray = (0, 1)"
  by (simp add: find_top_black_banner_def best_run_def dark_rows_def times_0_25_def
      times_0_09_def float_mul_int_def round_to_53_def moving_groups_def ex_gray_def Let_def)

lemma ex_width: "width ex_gray = 10"
  by (simp add: width_def ex_gray_def)

lemma ex_times:
  "times_0_70 10 = 7" "times_0_80 10 = 8" "times_0_20 10 = 2" "times_0_40 10 = 4"
  by (simp_all add: times_0_70_def times_0_80_def times_0_20_def times_0_40_def
      float_mul_int_def round_to_53_def Let_def)

lemma ex_band: "take (nat (1 - 0)) (drop (nat 0) ex_gray) = ex_gray"
  by (simp add: ex_gray_def)

lemma ex_rois:
  "make_rois ex_gray =
     [(''full'', ex_gray), (''left70'', [[0, 0, 0, 0, 0, 0, 0]]),
      (''mid60'', [[0, 0, 0, 0, 0, 0]]), (''right60'', [[0, 0, 0, 0, 0, 0]])]"
  unfolding make_rois_def Let_def ex_width ex_times
  by (simp add: ex_gray_def)

lemma ex_full: "collect_candidates_from_roi ex_cv ex_ocr ex_gray ''full'' = Inr [ex_B, ex_C]"
  by code_simp

lemma ex_left: "collect_candidates_from_roi ex_cv ex_ocr [[0, 0, 0, 0, 0, 0, 0]] ''left70'' = Inr [ex_D]"
  by code_simp

lemma ex_mid: "collect_candidates_from_roi ex_cv ex_ocr [[0, 0, 0, 0, 0, 0]] ''mid60'' = Inr []"
  by code_simp

lemma ex_right: "collect_candidates_from_roi ex_cv ex_ocr [[0, 0, 0, 0, 0, 0]] ''right60'' = Inr []"
  by code_simp

lemma ex_candidates: "image_candidates ex_cv ex_ocr ex_gray = Inr [ex_B, ex_C, ex_D]"
  unfolding image_candidates_def ex_banner prod.case Let_def ex_band ex_rois
  by (simp add: ex_full ex_left ex_mid ex_right bind_err_def)

lemma ex_select: "process_image_select [ex_B, ex_C, ex_D] margin_default = Inr (Some (Datetime 2024 8 1 6 31 27), ''2024-08-01 06:31:28'')"
  by code_simp

lemma ex_not_mem: "Datetime 2024 8 1 6 31 27 \<notin> c_dt ` set [ex_B, ex_C, ex_D]"
  by (simp add: ex_B_def ex_C_def ex_D_def)

lemma blank_cands: "image_candidates ex_cv blank_ocr ex_gray = Inr []"
  unfolding image_candidates_def ex_banner prod.case Let_def ex_band ex_rois
  by (simp add: bind_err_def collect_candidates_from_roi_def
      variant_images_def VARIANT_TAGS_def blank_ocr_def candidate_of_def strip_def replace_char_def
      parse_timestamp_flex_def)

lemma ex_run:
  "process_image ex_cv ex_ocr (Some ex_gray) margin_default
     = Inr (Some (Datetime 2024 8 1 6 31 27), ''2024-08-01 06:31:28'')"
  unfolding process_image_def option.case ex_candidates bind_err_def sum.case
  by (rule ex_select)

text \<open>
  Claim C1, as stated: the timestamp returned is the timestamp of some candidate. The
  vote per field refutes it. Three readings that each get one field wrong give the
  candidates \<open>ex_B\<close>, \<open>ex_C\<close> and \<open>ex_D\<close>; no candidate leads by the margin from a preferred
  path, each field is won by the two readings that agree on it, and the timestamp
  returned is the one of no candidate.
\<close>

theorem drawn_from_candidates_counterexample:
  "image_candidates ex_cv ex_ocr ex_gray = Inr [ex_B, ex_C, ex_D]
   \<and> process_image ex_cv ex_ocr (Some ex_gray) margin_default
       = Inr (Some (Datetime 2024 8 1 6 31 27), ''2024-08-01 06:31:28'')
   \<and> Datetime 2024 8 1 6 31 27 \<notin> c_dt ` set [ex_B, ex_C, ex_D]"
  using ex_candidates ex_run ex_not_mem by blast

text \<open>
  Claim C1, amended. For every image with candidates, each of the six fields of the
  timestamp returned by \<open>process_image\<close> is that field of the timestamp of some candidate
  of the image; the candidate may differ from field to field.
\<close>

theorem fields_drawn_from_candidates:
  assumes "process_image cv ocr (Some gray) m = Inr (Some t, r)"
  shows "\<exists>cs. image_candidates cv ocr gray = Inr cs
            \<and> (\<forall>i < 6. \<exists>c \<in> set cs. dt_fields t ! i = dt_fields (c_dt c) ! i)"
proof -
  from assms obtain cs where cs: "image_candidates cv ocr gray = Inr cs"
    and sel: "process_image_select cs m = Inr (Some t, r)"
    by (auto simp: process_image_def bind_err_def split: sum.splits)
  have "\<forall>c \<in> set cs. wf_cand c" using cs by (rule image_candidates_wf)
  then have "\<forall>i < 6. \<exists>c \<in> set cs. dt_fields t ! i = dt_fields (c_dt c) ! i"
    using sel by (rule select_fields_from_candidates)
  with cs show ?thesis by blast
qed

theorem fields_drawn_from_candidates_witness:
  "process_image ex_cv ex_ocr (Some ex_gray) margin_default
     = Inr (Some (Datetime 2024 8 1 6 31 27), ''2024-08-01 06:31:28'')
   \<and> image_candidates ex_cv ex_ocr ex_gray = Inr [ex_B, ex_C, ex_D]
   \<and> (\<exists>c \<in> set [ex_B, ex_C, ex_D].
         dt_fields (Datetime 2024 8 1 6 31 27) ! 5 = dt_fields (c_dt c) ! 5)"
proof -
  have run: "process_image ex_cv ex_ocr (Some ex_gray) margin_default
               = Inr (Some (Datetime 2024 8 1 6 31 27), ''2024-08-01 06:31:28'')"
    by (rule ex_run)
  from fields_drawn_from_candidates [OF run] obtain cs
    where cs: "image_candidates ex_cv ex_ocr ex_gray = Inr cs"
      and each: "\<forall>i < 6. \<exists>c \<in> set cs. dt_fields (Datetime 2024 8 1 6 31 27) ! i = dt_fields (c_dt c) ! i"
    by blast
  have "cs = [ex_B, ex_C, ex_D]" using cs ex_candidates by simp
  moreover have "(5::nat) < 6" by simp
  ultimately have "\<exists>c \<in> set [ex_B, ex_C, ex_D].
      dt_fields (Datetime 2024 8 1 6 31 27) ! 5 = dt_fields (c_dt c) ! 5"
    using each by blast
  then show ?thesis using run ex_candidates by blast
qed

text \<open>
  Claim C7. When the image does not decode, and when it decodes and no text read from
  it parses, \<open>process_image\<close> returns no timestamp and the empty text, as a value and not
  as an error.
\<close>

theorem unrecognized_without_candidates:
  "process_image cv ocr None m = Inr (None, [])
   \<and> (image_candidates cv ocr gray = Inr [] \<longrightarrow> process_image cv ocr (Some gray) m = Inr (None, []))"
  by (simp add: process_image_def process_image_select_def bind_err_def)

theorem unrecognized_without_candidates_witness:
  "image_candidates ex_cv blank_ocr ex_gray = Inr []
   \<and> process_image ex_cv blank_ocr (Some ex_gray) margin_default = Inr (None, [])
   \<and> process_image ex_cv blank_ocr None margin_default = Inr (None, [])"
  using unrecognized_without_candidates [of ex_cv blank_ocr margin_default ex_gray] blank_cands
  by blast

section \<open>The banner locator\<close>








section \<open>Facts about the matcher\<close>

lemma run_length_takeWhile:
  "run_length p hi s = length (takeWhile p (case hi of None \<Rightarrow> s | Some h \<Rightarrow> take h s))"
proof (induction s arbitrary: hi)
  case Nil
  then show ?case by (simp split: option.splits)
next
  case (Cons c cs)
  show ?case
  proof (cases hi)
    case None
    then show ?thesis using Cons.IH[of None] by simp
  next
    case (Some h)
    then show ?thesis using Cons.IH[of "Some (h - 1)"] by (cases h) auto
  qed
qed

lemma counts_exact: "counts n n greedy = [n]"
  by (simp add: counts_def)

lemma rmatch_times:
  "rmatch (times p n # r) s g caps =
     (if n \<le> length s \<and> (\<forall>c \<in> set (take n s). p c)
      then rmatch r (drop n s) (map_option (\<lambda>b. b @ take n s) g) caps else None)"
proof -
  let ?k = "length (takeWhile p (take n s))"
  have k: "run_length p (Some n) s = ?k" by (simp add: run_length_takeWhile)
  have le: "?k \<le> n" by (metis length_take length_takeWhile_le min.cobounded2 order_trans)
  show ?thesis
  proof (cases "n \<le> length s \<and> (\<forall>c \<in> set (take n s). p c)")
    case True
    then have tw: "takeWhile p (take n s) = take n s" by (simp add: takeWhile_eq_all_conv)
    have "?k = n" unfolding tw using True by simp
    then show ?thesis using True k by (simp add: times_def counts_exact split: option.splits)
  next
    case False
    have "?k < n"
    proof (rule ccontr)
      assume "\<not> ?k < n"
      then have kn: "?k = n" using le by simp
      have "length (take n s) \<le> n" by simp
      moreover have "?k \<le> length (take n s)" by (rule length_takeWhile_le)
      ultimately have "length (take n s) = n" using kn by simp
      then have "n \<le> length s" by simp
      moreover have "takeWhile p (take n s) = take n s"
        using kn \<open>length (take n s) = n\<close>
        by (metis length_append takeWhile_dropWhile_id add_diff_cancel_left' length_0_conv
            append_Nil2 add.right_neutral)
      then have "\<forall>c \<in> set (take n s). p c" by (metis set_takeWhileD)
      ultimately show False using False by simp
    qed
    then have "rmatch (times p n # r) s g caps = None" using k by (simp add: times_def)
    then show ?thesis using False by auto
  qed
qed

lemma rmatch_grp:
  "rmatch (grp xs @ r) s g caps = rmatch (xs @ Close # r) s (Some []) caps"
  by (simp add: grp_def)

section \<open>The triplet repair\<close>

lemma newline_space: "is_space newline" "colon_or_space newline"
  by (simp_all add: is_space_def newline_def colon_or_space_def)

lemma ahead_colon_or_space:
  "((s \<noteq> [] \<and> colon_or_space (hd s)) \<or> at_eol s) = (s = [] \<or> colon_or_space (hd s))"
  by (auto simp: at_eol_def newline_space)

lemma triplet_match_long:
  "re_match TRIPLET_FIELD (c # d1 # d2 # d3 # rest) =
     (if colon_or_space c \<and> is_digit d1 \<and> is_digit d2 \<and> is_digit d3
         \<and> (rest = [] \<or> colon_or_space (hd rest))
      then Some ([[c], [d1, d2, d3]], rest) else None)"
  by (simp add: re_match_def TRIPLET_FIELD_def grp_def rmatch_times ahead_colon_or_space
      del: rmatch.simps(4))
     (auto simp: at_eol_def newline_space)

lemma triplet_match_short:
  "length s < 4 \<Longrightarrow> re_match TRIPLET_FIELD s = None"
  by (auto simp add: re_match_def TRIPLET_FIELD_def grp_def rmatch_times)

lemma triplet_fix_groups:
  "is_digit d2 \<Longrightarrow> is_digit d3 \<Longrightarrow>
   triplet_fix [[c], [d1, d2, d3]] =
     c # (if (d1 = CHR ''0'' \<or> d1 = CHR ''1'') \<and> 0 \<le> py_int [d2, d3] \<and> py_int [d2, d3] \<le> 59
          then [d2, d3] else [d1, d2, d3])"
  by (auto simp: triplet_fix_def Let_def)

lemma repair_is_spec: "repair_time_triplets s = triplet_repair_spec s"
  unfolding repair_time_triplets_def
proof (induction s rule: triplet_repair_spec.induct)
  case (1 c d1 d2 d3 rest)
  let ?s = "c # d1 # d2 # d3 # rest"
  show ?case
  proof (cases "colon_or_space c \<and> is_digit d1 \<and> is_digit d2 \<and> is_digit d3
         \<and> (rest = [] \<or> colon_or_space (hd rest))")
    case True
    then have m: "re_match TRIPLET_FIELD ?s = Some ([[c], [d1, d2, d3]], rest)"
      by (simp add: triplet_match_long)
    have a: "re_sub TRIPLET_FIELD triplet_fix ?s
            = triplet_fix [[c], [d1, d2, d3]] @ re_sub TRIPLET_FIELD triplet_fix rest"
      by (simp add: m)
    have b: "re_sub TRIPLET_FIELD triplet_fix rest = triplet_repair_spec rest"
      using 1(1) True by blast
    have c: "triplet_repair_spec ?s = triplet_fix [[c], [d1, d2, d3]] @ triplet_repair_spec rest"
      using True by (simp add: triplet_fix_groups)
    show ?thesis by (simp only: a b c)
  next
    case False
    then have m: "re_match TRIPLET_FIELD ?s = None"
      by (simp add: triplet_match_long)
    have a: "re_sub TRIPLET_FIELD triplet_fix ?s
            = c # re_sub TRIPLET_FIELD triplet_fix (d1 # d2 # d3 # rest)"
      by (simp add: m)
    have b: "re_sub TRIPLET_FIELD triplet_fix (d1 # d2 # d3 # rest)
            = triplet_repair_spec (d1 # d2 # d3 # rest)"
      using 1(2) False by blast
    have c: "triplet_repair_spec ?s = c # triplet_repair_spec (d1 # d2 # d3 # rest)"
      using False by auto
    show ?thesis by (simp only: a b c)
  qed
qed (simp_all add: triplet_match_short)

lemma triplet_repair_spec_length: "length (triplet_repair_spec s) \<le> length s"
  by (induction s rule: triplet_repair_spec.induct) auto

text \<open>
  Claim C8. For every string, \<open>repair_time_triplets\<close> changes nothing but runs of three
  digits between separators: a run that follows a colon or a white space character and is
  followed by one, or by the end of the string, is replaced by its last two digits when
  its first digit is 0 or 1 and the last two digits make a value from 0 to 59, and every
  other character is copied as it is. So the result is never longer than the input,
  \<open>:299:\<close> is left as it is and \<open>:107:\<close> becomes \<open>:07:\<close>.
\<close>

theorem triplet_repair_only_valid_runs:
  "repair_time_triplets s = triplet_repair_spec s
   \<and> length (repair_time_triplets s) \<le> length s
   \<and> repair_time_triplets '':299:'' = '':299:''
   \<and> repair_time_triplets '':107:'' = '':07:''"
proof -
  have "repair_time_triplets '':299:'' = '':299:''" by code_simp
  moreover have "repair_time_triplets '':107:'' = '':07:''" by code_simp
  ultimately show ?thesis by (simp add: repair_is_spec triplet_repair_spec_length)
qed

theorem triplet_repair_only_valid_runs_witness:
  "repair_time_triplets ''12:107:59 159 :060'' = ''12:07:59 59 :060''"
proof -
  have "triplet_repair_spec ''12:107:59 159 :060'' = ''12:07:59 59 :060''" by code_simp
  then show ?thesis
    using triplet_repair_only_valid_runs [of "''12:107:59 159 :060''"] by simp
qed

section \<open>Runs of one class replaced by one character\<close>

lemma counts_greedy: "lo \<le> n \<Longrightarrow> counts lo n True = n # rev [lo ..< n]"
  by (simp add: counts_def)

lemma run_match:
  "re_match [Rep p lo None True] s =
     (if length (takeWhile p s) < lo then None else Some ([], dropWhile p s))"
  by (simp add: re_match_def run_length_takeWhile counts_greedy dropWhile_eq_drop)

lemma squeeze_Nil: "0 < lo \<Longrightarrow> squeeze p lo r [] = []"
  by (simp add: squeeze_def run_match)

lemma length_dropWhile_less: "takeWhile p s \<noteq> [] \<Longrightarrow> length (dropWhile p s) < length s"
  by (metis add_diff_cancel_right' diff_less length_append length_greater_0_conv
      takeWhile_dropWhile_id length_0_conv not_gr_zero zero_less_diff add.commute less_add_same_cancel2)

lemma squeeze_Cons:
  assumes "0 < lo"
  shows "squeeze p lo r (c # cs) =
     (if lo \<le> length (takeWhile p (c # cs)) then r # squeeze p lo r (dropWhile p (c # cs))
      else c # squeeze p lo r cs)"
proof (cases "lo \<le> length (takeWhile p (c # cs))")
  case True
  then have "takeWhile p (c # cs) \<noteq> []" using assms by (auto split: if_splits)
  then have "length (dropWhile p (c # cs)) < length (c # cs)" by (rule length_dropWhile_less)
  moreover have "re_match [Rep p lo None True] (c # cs) = Some ([], dropWhile p (c # cs))"
    using True by (simp add: run_match)
  ultimately show ?thesis using True unfolding squeeze_def
    by (simp del: dropWhile.simps takeWhile.simps)
next
  case False
  then have "re_match [Rep p lo None True] (c # cs) = None" by (simp add: run_match)
  then show ?thesis using False unfolding squeeze_def by (simp del: takeWhile.simps)
qed

lemma squeeze_induct [consumes 1, case_names Nil Run Keep]:
  assumes "0 < lo"
    and "P []"
    and "\<And>c cs. lo \<le> length (takeWhile p (c # cs)) \<Longrightarrow> P (dropWhile p (c # cs)) \<Longrightarrow> P (c # cs)"
    and "\<And>c cs. \<not> lo \<le> length (takeWhile p (c # cs)) \<Longrightarrow> P cs \<Longrightarrow> P (c # cs)"
  shows "P s"
proof (induction "length s" arbitrary: s rule: less_induct)
  case less
  show ?case
  proof (cases s)
    case Nil
    then show ?thesis using assms(2) by simp
  next
    case (Cons c cs)
    show ?thesis
    proof (cases "lo \<le> length (takeWhile p (c # cs))")
      case True
      then have "takeWhile p (c # cs) \<noteq> []" using assms(1) by (auto split: if_splits)
      then have "length (dropWhile p (c # cs)) < length s"
        unfolding Cons by (rule length_dropWhile_less)
      then have "P (dropWhile p (c # cs))" by (rule less)
      then show ?thesis unfolding Cons using True assms(3) by blast
    next
      case False
      have "P cs" using less[of cs] Cons by simp
      then show ?thesis unfolding Cons using False assms(4) by blast
    qed
  qed
qed

lemma no_pair_Cons: "no_pair q (a # s) = ((s \<noteq> [] \<longrightarrow> \<not> (q a \<and> q (hd s))) \<and> no_pair q s)"
  by (cases s) auto

lemma no_pair_dropWhile: "no_pair q s \<Longrightarrow> no_pair q (dropWhile p s)"
  by (induction s) (auto simp: no_pair_Cons)

lemma run_head: "0 < lo \<Longrightarrow> lo \<le> length (takeWhile p (c # cs)) \<Longrightarrow> p c"
  by (auto split: if_splits)

lemma last_dropWhile: "dropWhile p s \<noteq> [] \<Longrightarrow> last (dropWhile p s) = last s"
  by (metis last_appendR takeWhile_dropWhile_id)

lemma dropWhile_Nil_all: "dropWhile p s = [] \<Longrightarrow> x \<in> set s \<Longrightarrow> p x"
  by (simp add: dropWhile_eq_Nil_conv)

lemma squeeze_hd:
  assumes "0 < lo" and "s \<noteq> []"
  shows "squeeze p lo r s \<noteq> []"
    and "hd (squeeze p lo r s) = hd s \<or> (p (hd s) \<and> hd (squeeze p lo r s) = r)"
proof -
  obtain c cs where s: "s = c # cs" using assms(2) by (cases s) auto
  show "squeeze p lo r s \<noteq> []" unfolding s by (simp add: squeeze_Cons[OF assms(1)] del: takeWhile.simps dropWhile.simps)
  show "hd (squeeze p lo r s) = hd s \<or> (p (hd s) \<and> hd (squeeze p lo r s) = r)"
    unfolding s using run_head[OF assms(1), of p c cs]
    by (simp add: squeeze_Cons[OF assms(1)] del: takeWhile.simps dropWhile.simps)
qed

lemma squeeze_hd_keep: "0 < lo \<Longrightarrow> s \<noteq> [] \<Longrightarrow> \<not> p (hd s) \<Longrightarrow> hd (squeeze p lo r s) = hd s"
  using squeeze_hd(2) by blast

lemma squeeze_last:
  assumes "0 < lo"
  shows "s \<noteq> [] \<longrightarrow> last (squeeze p lo r s) = last s \<or> (p (last s) \<and> last (squeeze p lo r s) = r)"
  using assms
proof (induction s rule: squeeze_induct[where p = p])
  case Nil
  then show ?case by simp
next
  case (Run c cs)
  let ?D = "dropWhile p (c # cs)"
  have sq: "squeeze p lo r (c # cs) = r # squeeze p lo r ?D"
    using Run(1) by (simp add: squeeze_Cons[OF assms] del: takeWhile.simps dropWhile.simps)
  show ?case
  proof (cases "?D = []")
    case True
    then have "p (last (c # cs))" using dropWhile_Nil_all[of p "c # cs"] by (metis last_in_set list.discI)
    moreover have "squeeze p lo r (c # cs) = [r]" unfolding sq True by (simp add: squeeze_Nil[OF assms])
    ultimately show ?thesis by simp
  next
    case False
    then have ne: "squeeze p lo r ?D \<noteq> []" using squeeze_hd(1)[OF assms] by blast
    have l: "last ?D = last (c # cs)" using False by (rule last_dropWhile)
    have "last (squeeze p lo r (c # cs)) = last (squeeze p lo r ?D)" unfolding sq using ne by simp
    then show ?thesis using Run(2) False l by metis
  qed
next
  case (Keep c cs)
  have sq: "squeeze p lo r (c # cs) = c # squeeze p lo r cs"
    using Keep(1) by (simp add: squeeze_Cons[OF assms] del: takeWhile.simps dropWhile.simps)
  show ?case
  proof (cases "cs = []")
    case True
    then show ?thesis unfolding sq by (simp add: squeeze_Nil[OF assms])
  next
    case False
    then have ne: "squeeze p lo r cs \<noteq> []" using squeeze_hd(1)[OF assms] by blast
    then have "last (squeeze p lo r (c # cs)) = last (squeeze p lo r cs)" unfolding sq by simp
    then show ?thesis using Keep(2) False by auto
  qed
qed

lemma squeeze_set:
  assumes "0 < lo"
  shows "set (squeeze p lo r s) \<subseteq> insert r (set s)"
  using assms
proof (induction s rule: squeeze_induct[where p = p])
  case Nil
  then show ?case by (simp add: squeeze_Nil[OF assms])
next
  case (Run c cs)
  have "set (dropWhile p (c # cs)) \<subseteq> set (c # cs)" by (meson set_dropWhileD subsetI)
  then show ?case using Run
    by (auto simp add: squeeze_Cons[OF assms] simp del: takeWhile.simps dropWhile.simps)
next
  case (Keep c cs)
  then show ?case
    by (auto simp add: squeeze_Cons[OF assms] simp del: takeWhile.simps dropWhile.simps)
qed

lemma squeeze_no_pair_self:
  assumes "0 < lo" and "lo \<le> 2"
  shows "no_pair p (squeeze p lo r s)"
  using assms(1)
proof (induction s rule: squeeze_induct[where p = p])
  case Nil
  then show ?case by (simp add: squeeze_Nil[OF assms(1)])
next
  case (Run c cs)
  let ?D = "dropWhile p (c # cs)"
  have sq: "squeeze p lo r (c # cs) = r # squeeze p lo r ?D"
    using Run(1) by (simp add: squeeze_Cons[OF assms(1)] del: takeWhile.simps dropWhile.simps)
  have "squeeze p lo r ?D \<noteq> [] \<longrightarrow> \<not> p (hd (squeeze p lo r ?D))"
  proof
    assume "squeeze p lo r ?D \<noteq> []"
    then have D: "?D \<noteq> []" using squeeze_Nil[OF assms(1)] by metis
    then have "\<not> p (hd ?D)" by (rule hd_dropWhile)
    then show "\<not> p (hd (squeeze p lo r ?D))" using squeeze_hd_keep[OF assms(1) D] by metis
  qed
  then show ?case unfolding sq using Run(2) by (simp add: no_pair_Cons)
next
  case (Keep c cs)
  have sq: "squeeze p lo r (c # cs) = c # squeeze p lo r cs"
    using Keep(1) by (simp add: squeeze_Cons[OF assms(1)] del: takeWhile.simps dropWhile.simps)
  have "squeeze p lo r cs \<noteq> [] \<longrightarrow> \<not> (p c \<and> p (hd (squeeze p lo r cs)))"
  proof (intro impI notI)
    assume ne: "squeeze p lo r cs \<noteq> []" and pc: "p c \<and> p (hd (squeeze p lo r cs))"
    then have cs: "cs \<noteq> []" using squeeze_Nil[OF assms(1)] by metis
    have "length (takeWhile p (c # cs)) < 2" using Keep(1) assms(2) by simp
    then have "takeWhile p cs = []" using pc by simp
    then have "\<not> p (hd cs)" using cs by (cases cs) (auto split: if_splits)
    then have "hd (squeeze p lo r cs) = hd cs" using squeeze_hd_keep[OF assms(1) cs] by metis
    then show False using pc \<open>\<not> p (hd cs)\<close> by simp
  qed
  then show ?case unfolding sq using Keep(2) by (simp add: no_pair_Cons)
qed

lemma squeeze_all_r:
  assumes "0 < lo" and "lo \<le> 1"
  shows "\<forall>x \<in> set (squeeze p lo r s). p x \<longrightarrow> x = r"
  using assms(1)
proof (induction s rule: squeeze_induct[where p = p])
  case Nil
  then show ?case by (simp add: squeeze_Nil[OF assms(1)])
next
  case (Run c cs)
  then show ?case
    by (auto simp add: squeeze_Cons[OF assms(1)] simp del: takeWhile.simps dropWhile.simps)
next
  case (Keep c cs)
  then have "\<not> p c" using assms by (auto split: if_splits)
  then show ?case using Keep
    by (auto simp add: squeeze_Cons[OF assms(1)] simp del: takeWhile.simps dropWhile.simps)
qed

lemma squeeze_no_pair_other:
  assumes "0 < lo" and "\<And>c. q c \<Longrightarrow> \<not> p c" and "\<not> q r"
  shows "no_pair q s \<longrightarrow> no_pair q (squeeze p lo r s)"
  using assms(1)
proof (induction s rule: squeeze_induct[where p = p])
  case Nil
  then show ?case by (simp add: squeeze_Nil[OF assms(1)])
next
  case (Run c cs)
  let ?D = "dropWhile p (c # cs)"
  have sq: "squeeze p lo r (c # cs) = r # squeeze p lo r ?D"
    using Run(1) by (simp add: squeeze_Cons[OF assms(1)] del: takeWhile.simps dropWhile.simps)
  show ?case unfolding sq using Run(2) assms(3) no_pair_dropWhile[of q "c # cs" p]
    by (simp add: no_pair_Cons del: dropWhile.simps)
next
  case (Keep c cs)
  have sq: "squeeze p lo r (c # cs) = c # squeeze p lo r cs"
    using Keep(1) by (simp add: squeeze_Cons[OF assms(1)] del: takeWhile.simps dropWhile.simps)
  show ?case
  proof
    assume np: "no_pair q (c # cs)"
    then have npc: "no_pair q cs" and adj: "cs \<noteq> [] \<longrightarrow> \<not> (q c \<and> q (hd cs))"
      by (simp_all add: no_pair_Cons)
    have "squeeze p lo r cs \<noteq> [] \<longrightarrow> \<not> (q c \<and> q (hd (squeeze p lo r cs)))"
    proof (intro impI)
      assume "squeeze p lo r cs \<noteq> []"
      then have cs: "cs \<noteq> []" using squeeze_Nil[OF assms(1)] by metis
      from squeeze_hd(2)[OF assms(1) cs, of p r]
      show "\<not> (q c \<and> q (hd (squeeze p lo r cs)))" using adj cs assms(3) by auto
    qed
    then show "no_pair q (squeeze p lo r (c # cs))"
      unfolding sq using Keep(2) npc by (simp add: no_pair_Cons)
  qed
qed

lemma squeeze_id:
  assumes "0 < lo"
  shows "no_pair p s \<and> (\<forall>x \<in> set s. p x \<longrightarrow> x = r) \<longrightarrow> squeeze p lo r s = s"
  using assms
proof (induction s rule: squeeze_induct[where p = p])
  case Nil
  then show ?case by (simp add: squeeze_Nil[OF assms])
next
  case (Run c cs)
  show ?case
  proof
    assume h: "no_pair p (c # cs) \<and> (\<forall>x \<in> set (c # cs). p x \<longrightarrow> x = r)"
    have pc: "p c" using Run(1) assms by (auto split: if_splits)
    then have "cs = [] \<or> \<not> p (hd cs)" using h by (auto simp: no_pair_Cons)
    then have d: "dropWhile p (c # cs) = cs" using pc by (cases cs) auto
    have "squeeze p lo r (c # cs) = r # squeeze p lo r cs"
      using Run(1) d by (simp add: squeeze_Cons[OF assms] del: takeWhile.simps dropWhile.simps)
    moreover have "squeeze p lo r cs = cs" using Run(2) h d by (simp add: no_pair_Cons)
    moreover have "r = c" using h pc by simp
    ultimately show "squeeze p lo r (c # cs) = c # cs" by simp
  qed
next
  case (Keep c cs)
  then show ?case by (simp add: squeeze_Cons[OF assms] no_pair_Cons del: takeWhile.simps)
qed

section \<open>Normalisation\<close>

lemma squeeze_clean_ends_other:
  assumes "0 < lo" and "\<not> is_space r" and "clean_ends s"
  shows "clean_ends (squeeze p lo r s)"
proof (cases "s = []")
  case True
  then show ?thesis by (simp add: squeeze_Nil[OF assms(1)] clean_ends_def)
next
  case False
  then have "\<not> is_space (hd s)" and "\<not> is_space (last s)" using assms(3) by (auto simp: clean_ends_def)
  moreover note squeeze_hd(2)[OF assms(1) False, of p r] squeeze_last[OF assms(1), of s p r]
  ultimately show ?thesis using assms(2) False by (auto simp: clean_ends_def)
qed

lemma squeeze_clean_ends_space:
  assumes "0 < lo" and "clean_ends s"
  shows "clean_ends (squeeze is_space lo r s)"
proof (cases "s = []")
  case True
  then show ?thesis by (simp add: squeeze_Nil[OF assms(1)] clean_ends_def)
next
  case False
  then have "\<not> is_space (hd s)" and "\<not> is_space (last s)" using assms(2) by (auto simp: clean_ends_def)
  moreover note squeeze_hd(2)[OF assms(1) False, of is_space r] squeeze_last[OF assms(1), of s is_space r]
  ultimately show ?thesis using False by (auto simp: clean_ends_def)
qed

lemma slash_removal: "re_sub SLASH_RE (\<lambda>_. []) s = filter (\<lambda>c. \<not> slash_like c) s"
proof (induction s)
  case Nil
  then show ?case by (simp add: SLASH_RE_def re_match_def rmatch_times)
next
  case (Cons c cs)
  have m: "re_match SLASH_RE (c # cs) = (if slash_like c then Some ([], cs) else None)"
    by (simp add: SLASH_RE_def re_match_def rmatch_times)
  show ?case using Cons by (simp add: m)
qed

lemma dropWhile_hd_id: "xs \<noteq> [] \<Longrightarrow> \<not> P (hd xs) \<Longrightarrow> dropWhile P xs = xs"
  by (cases xs) auto

lemma strip_clean_ends: "clean_ends (strip s)"
proof (cases "strip s = []")
  case True
  then show ?thesis by (simp add: clean_ends_def)
next
  case False
  let ?u = "dropWhile is_space s"
  let ?v = "dropWhile is_space (rev ?u)"
  have v: "?v \<noteq> []" using False by (simp add: strip_def)
  have "last (strip s) = hd ?v" unfolding strip_def using v by (simp add: last_rev)
  moreover have "\<not> is_space (hd ?v)" using v by (rule hd_dropWhile)
  moreover have "hd (strip s) = last ?v" unfolding strip_def using v by (simp add: hd_rev)
  moreover have "last ?v = last (rev ?u)" using v by (metis last_appendR takeWhile_dropWhile_id)
  moreover have u: "?u \<noteq> []"
    using v by (metis dropWhile.simps(1) rev.simps(1))
  moreover have "last (rev ?u) = hd ?u" using u by (simp add: last_rev)
  moreover have "\<not> is_space (hd ?u)" using u by (rule hd_dropWhile)
  ultimately show ?thesis by (simp add: clean_ends_def)
qed

lemma strip_id: "clean_ends s \<Longrightarrow> strip s = s"
proof (cases s)
  case Nil
  then show ?thesis by (simp add: strip_def)
next
  case (Cons c cs)
  assume "clean_ends s"
  then have h: "\<not> is_space (hd s)" and l: "\<not> is_space (last s)" using Cons by (auto simp: clean_ends_def)
  have a: "dropWhile is_space s = s" using h Cons by simp
  have "rev s \<noteq> []" using Cons by simp
  moreover have "hd (rev s) = last s" using Cons by (simp add: hd_rev)
  ultimately have b: "dropWhile is_space (rev s) = rev s" using l by (simp add: dropWhile_hd_id)
  show ?thesis unfolding strip_def a b by simp
qed

lemma strip_set: "set (strip s) \<subseteq> set s"
  unfolding strip_def by (metis set_dropWhileD set_rev subsetI)

lemma confusables_map: "confusables t = map conf_char t"
  by (induction t) (auto simp: confusables_def replace_char_def conf_char_def)

lemma conf_char_space: "is_space (conf_char c) = is_space c"
  by (auto simp: conf_char_def is_space_def)

lemma conf_char_slash: "slash_like (conf_char c) = slash_like c"
  by (auto simp: conf_char_def slash_like_def)

lemma conf_char_clean: "\<not> confusable (conf_char c)"
  by (auto simp: conf_char_def confusable_def)

lemma conf_char_id: "\<not> confusable c \<Longrightarrow> conf_char c = c"
  by (auto simp: conf_char_def confusable_def)

lemma confusables_ends: "clean_ends t \<Longrightarrow> clean_ends (confusables t)"
  by (cases "t = []") (auto simp: clean_ends_def confusables_map hd_map last_map conf_char_space)

lemma confusables_id: "\<forall>c \<in> set t. \<not> confusable c \<Longrightarrow> confusables t = t"
  by (simp add: confusables_map conf_char_id map_idI)

lemma replace_char_id: "a \<notin> set s \<Longrightarrow> replace_char a b s = s"
  by (induction s) (auto simp: replace_char_def)

lemma replace_char_set: "set (replace_char a b s) \<subseteq> insert b (set s)"
  by (auto simp: replace_char_def)

lemma char_facts:
  "\<not> is_space CHR '':''" "\<not> is_space CHR ''-''" "is_space CHR '' ''"
  "\<not> confusable CHR '' ''" "\<not> confusable CHR '':''" "\<not> confusable CHR ''-''"
  "\<not> slash_like CHR '' ''" "\<not> slash_like CHR '':''" "\<not> slash_like CHR ''-''"
  "newline \<noteq> CHR '' ''" "is_space newline"
  by (simp_all add: is_space_def confusable_def slash_like_def newline_def)

lemma normalize_unfold:
  "s \<noteq> [] \<Longrightarrow> normalize_ocr s =
     squeeze (is_char CHR ''-'') 2 CHR ''-''
       (squeeze (is_char CHR '':'') 2 CHR '':''
         (squeeze is_space 1 CHR '' ''
           (filter (\<lambda>c. \<not> slash_like c)
             (confusables (strip (replace_char newline CHR '' '' s))))))"
  by (simp add: normalize_ocr_def Let_def squeeze_def WS_RUN_def COLON_RUN_def DASH_RUN_def
      slash_removal)

lemma normalize_Nil: "normalize_ocr [] = []"
  by (simp add: normalize_ocr_def)

lemma normal_form_Nil: "normal_form []"
  by (simp add: normal_form_def clean_ends_def)

lemma normalize_normal_form:
  assumes "\<forall>c \<in> set x. \<not> slash_like c"
  shows "normal_form (normalize_ocr x)"
proof (cases "x = []")
  case True
  then show ?thesis by (simp add: normalize_Nil normal_form_Nil)
next
  case False
  define t0 where "t0 = strip (replace_char newline CHR '' '' x)"
  define t1 where "t1 = confusables t0"
  define t3 where "t3 = squeeze is_space 1 CHR '' '' t1"
  define t4 where "t4 = squeeze (is_char CHR '':'') 2 CHR '':'' t3"
  define t5 where "t5 = squeeze (is_char CHR ''-'') 2 CHR ''-'' t4"
  have s0: "\<forall>c \<in> set t0. \<not> slash_like c"
    using assms strip_set[of "replace_char newline CHR '' '' x"]
      replace_char_set[of newline "CHR '' ''" x] char_facts unfolding t0_def by blast
  have e0: "clean_ends t0" unfolding t0_def by (rule strip_clean_ends)
  have e1: "clean_ends t1" unfolding t1_def using e0 by (rule confusables_ends)
  have a1: "\<forall>c \<in> set t1. \<not> confusable c \<and> \<not> slash_like c"
    unfolding t1_def using s0 by (auto simp: confusables_map conf_char_clean conf_char_slash)
  then have f1: "filter (\<lambda>c. \<not> slash_like c) t1 = t1" by simp
  have nx: "normalize_ocr x = t5"
    unfolding normalize_unfold[OF False] t5_def t4_def t3_def
    using f1 unfolding t1_def t0_def by simp
  have pos1: "0 < (1::nat)" and pos2: "0 < (2::nat)" by simp_all
  have e3: "clean_ends t3" unfolding t3_def using pos1 e1 by (rule squeeze_clean_ends_space)
  have a3: "\<forall>c \<in> set t3. \<not> confusable c \<and> \<not> slash_like c"
    using squeeze_set[OF pos1, of is_space "CHR '' ''" t1] a1 char_facts unfolding t3_def by blast
  have w3: "\<forall>c \<in> set t3. is_space c \<longrightarrow> c = CHR '' ''"
    unfolding t3_def using squeeze_all_r[OF pos1, of is_space "CHR '' ''" t1] by simp
  have n3: "no_pair is_space t3" unfolding t3_def by (rule squeeze_no_pair_self) simp_all
  have e4: "clean_ends t4" unfolding t4_def using pos2 char_facts(1) e3 by (rule squeeze_clean_ends_other)
  have sub4: "set t4 \<subseteq> insert CHR '':'' (set t3)" unfolding t4_def using pos2 by (rule squeeze_set)
  have a4: "\<forall>c \<in> set t4. \<not> confusable c \<and> \<not> slash_like c" using sub4 a3 char_facts by blast
  have w4: "\<forall>c \<in> set t4. is_space c \<longrightarrow> c = CHR '' ''" using sub4 w3 char_facts by blast
  have n4: "no_pair is_space t4"
    unfolding t4_def using squeeze_no_pair_other[OF pos2, of is_space "is_char CHR '':''" "CHR '':''" t3]
      n3 char_facts by (auto simp: is_char_def)
  have c4: "no_pair (is_char CHR '':'') t4" unfolding t4_def by (rule squeeze_no_pair_self) simp_all
  have e5: "clean_ends t5" unfolding t5_def using pos2 char_facts(2) e4 by (rule squeeze_clean_ends_other)
  have sub5: "set t5 \<subseteq> insert CHR ''-'' (set t4)" unfolding t5_def using pos2 by (rule squeeze_set)
  have a5: "\<forall>c \<in> set t5. \<not> confusable c \<and> \<not> slash_like c" using sub5 a4 char_facts by blast
  have w5: "\<forall>c \<in> set t5. is_space c \<longrightarrow> c = CHR '' ''" using sub5 w4 char_facts by blast
  have n5: "no_pair is_space t5"
    unfolding t5_def using squeeze_no_pair_other[OF pos2, of is_space "is_char CHR ''-''" "CHR ''-''" t4]
      n4 char_facts by (auto simp: is_char_def)
  have c5: "no_pair (is_char CHR '':'') t5"
    unfolding t5_def using squeeze_no_pair_other[OF pos2, of "is_char CHR '':''" "is_char CHR ''-''" "CHR ''-''" t4]
      c4 by (auto simp: is_char_def)
  have d5: "no_pair (is_char CHR ''-'') t5" unfolding t5_def by (rule squeeze_no_pair_self) simp_all
  show ?thesis
    unfolding nx normal_form_def using e5 a5 w5 n5 c5 d5 by (simp add: list_all_iff)
qed

lemma normal_form_fixed:
  assumes "normal_form y"
  shows "normalize_ocr y = y"
proof (cases "y = []")
  case True
  then show ?thesis by (simp add: normalize_Nil)
next
  case False
  have e: "clean_ends y" and a: "\<forall>c \<in> set y. \<not> confusable c \<and> \<not> slash_like c \<and> (is_space c \<longrightarrow> c = CHR '' '')"
    and n: "no_pair is_space y" and c: "no_pair (is_char CHR '':'') y" and d: "no_pair (is_char CHR ''-'') y"
    using assms by (simp_all add: normal_form_def list_all_iff)
  have "newline \<notin> set y" using a char_facts by blast
  then have r: "replace_char newline CHR '' '' y = y" by (rule replace_char_id)
  have s: "strip y = y" using e by (rule strip_id)
  have k: "confusables y = y" using a by (simp add: confusables_id)
  have f: "filter (\<lambda>c. \<not> slash_like c) y = y" using a by simp
  have w: "squeeze is_space 1 CHR '' '' y = y"
    using squeeze_id[of 1 is_space y "CHR '' ''"] n a by simp
  have cc: "squeeze (is_char CHR '':'') 2 CHR '':'' y = y"
    using squeeze_id[of 2 "is_char CHR '':''" y "CHR '':''"] c by (simp add: is_char_def)
  have dd: "squeeze (is_char CHR ''-'') 2 CHR ''-'' y = y"
    using squeeze_id[of 2 "is_char CHR ''-''" y "CHR ''-''"] d by (simp add: is_char_def)
  show ?thesis unfolding normalize_unfold[OF False] r s k f w cc dd ..
qed

text \<open>
  Claim C9, as stated: \<open>normalize_ocr\<close> is idempotent. The text \<open>/ 1\<close> refutes it: the
  slash is removed after the ends are stripped, so the first pass leaves a leading space
  and the second pass removes it.
\<close>

theorem normalize_idempotent_counterexample:
  "normalize_ocr ''/ 1'' = '' 1'' \<and> normalize_ocr '' 1'' = ''1''
   \<and> normalize_ocr (normalize_ocr ''/ 1'') \<noteq> normalize_ocr ''/ 1''"
  by code_simp

text \<open>
  Claim C9, amended. On every text without a slash or a backslash, \<open>normalize_ocr\<close> is
  idempotent.
\<close>

theorem normalize_idempotent:
  "\<forall>c \<in> set x. \<not> slash_like c \<Longrightarrow> normalize_ocr (normalize_ocr x) = normalize_ocr x"
  using normalize_normal_form normal_form_fixed by blast

theorem normalize_idempotent_witness:
  "\<not> slash_like CHR ''2'' \<and> \<not> slash_like CHR ''O'' \<and> \<not> slash_like CHR '':'' \<and> \<not> slash_like CHR '' ''
   \<and> normalize_ocr ''2O::2  '' = ''20:2''
   \<and> normalize_ocr (normalize_ocr ''2O::2  '') = normalize_ocr ''2O::2  ''"
proof -
  have sf: "\<forall>c \<in> set ''2O::2  ''. \<not> slash_like c" by (simp add: slash_like_def)
  have v: "normalize_ocr ''2O::2  '' = ''20:2''" by code_simp
  show ?thesis using normalize_idempotent [OF sf] v sf by simp
qed

section \<open>Parsing the clean text\<close>

lemma digit_char_cases:
  "0 \<le> n \<Longrightarrow> n \<le> 9 \<Longrightarrow> is_digit (digit_char n) \<and> digit_value (digit_char n) = n"
proof -
  assume "0 \<le> n" "n \<le> 9"
  then have "n = 0 \<or> n = 1 \<or> n = 2 \<or> n = 3 \<or> n = 4 \<or> n = 5 \<or> n = 6 \<or> n = 7 \<or> n = 8 \<or> n = 9"
    by arith
  then show ?thesis
    by (elim disjE) (simp_all add: digit_char_def is_digit_def digit_value_def)
qed

lemma digit_facts:
  assumes "is_digit a"
  shows "non_digit a = False" "is_space a = False" "colon_or_space a = False"
    "confusable a = False" "slash_like a = False" "space_or_T a = False"
    "is_char CHR ''-'' a = False" "is_char CHR '':'' a = False" "is_char CHR '' '' a = False"
    "a \<noteq> newline" "(a = CHR '':'') = False" "(a = CHR ''-'') = False" "(a = CHR '' '') = False"
  using assms
  by (auto simp: is_digit_def non_digit_def is_space_def colon_or_space_def confusable_def
      slash_like_def space_or_T_def is_char_def newline_def)

lemma sep_facts:
  "non_digit CHR ''-''" "non_digit CHR '':''" "non_digit CHR '' ''"
  "is_space CHR '' ''" "\<not> is_space CHR '':''" "\<not> is_space CHR ''-''"
  "colon_or_space CHR '':''" "colon_or_space CHR '' ''" "\<not> colon_or_space CHR ''-''"
  "is_digit CHR ''2''" "is_digit CHR ''0''"
  "\<not> is_digit CHR '':''" "\<not> is_digit CHR ''-''" "\<not> is_digit CHR '' ''"
  by (simp_all add: is_digit_def non_digit_def is_space_def colon_or_space_def)

lemma lit_times: "lit c = times (is_char c) 1"
  by (simp add: lit_def times_def)

lemma py_int2: "py_int [a, b] = 10 * digit_value a + digit_value b"
  by (simp add: py_int_def)

lemma py_int4: "py_int [a, b, c, d] = 1000 * digit_value a + 100 * digit_value b + 10 * digit_value c + digit_value d"
  by (simp add: py_int_def)

lemma date_match:
  assumes "is_digit y3" "is_digit y4" "is_digit mo1" "is_digit mo2" "is_digit da1" "is_digit da2"
  shows "re_search DATE_RE (CHR ''2'' # CHR ''0'' # y3 # y4 # CHR ''-'' # mo1 # mo2 # CHR ''-'' # da1 # da2 # rest)
         = Some ([[CHR ''2'', CHR ''0'', y3, y4], [mo1, mo2], [da1, da2]], rest)"
  using assms
  by (simp add: DATE_RE_def YEAR_def D2_def grp_def lit_times rmatch_times re_match_def
      upto_times_def counts_def is_char_def digit_facts sep_facts)

lemma time_match:
  assumes "is_digit ho1" "is_digit ho2" "is_digit mi1" "is_digit mi2" "is_digit se1" "is_digit se2"
  shows "re_search TIME_RE (CHR '' '' # ho1 # ho2 # CHR '':'' # mi1 # mi2 # CHR '':'' # [se1, se2])
         = Some ([[ho1, ho2], [mi1, mi2], [se1, se2]], [])"
  using assms
  by (simp add: TIME_RE_def D12_def D2_def grp_def lit_times rmatch_times re_match_def
      upto_times_def counts_def is_char_def digit_facts sep_facts)

lemma two_digits:
  fixes n :: int
  assumes "0 \<le> n" "n \<le> 99"
  shows "0 \<le> n div 10 mod 10" "n div 10 mod 10 \<le> 9" "0 \<le> n mod 10" "n mod 10 \<le> 9"
    "10 * (n div 10 mod 10) + n mod 10 = n"
proof -
  show "0 \<le> n div 10 mod 10" "0 \<le> n mod 10" by simp_all
  have "n div 10 mod 10 < 10" "n mod 10 < 10" by simp_all
  then show "n div 10 mod 10 \<le> 9" "n mod 10 \<le> 9" by linarith+
  have "n div 10 \<le> 99 div 10" using assms(2) by (rule zdiv_mono1) simp
  then have hi: "n div 10 < 10" by simp
  have lo: "0 \<le> n div 10" using assms(1) by (simp add: pos_imp_zdiv_nonneg_iff)
  have "n div 10 mod 10 = n div 10" using lo hi by (rule mod_pos_pos_trivial)
  then show "10 * (n div 10 mod 10) + n mod 10 = n" by simp
qed

lemma year_digits:
  fixes n :: int
  assumes "2000 \<le> n" "n \<le> 2099"
  shows "n div 1000 mod 10 = 2" "n div 100 mod 10 = 0"
    "0 \<le> n div 10 mod 10" "n div 10 mod 10 \<le> 9" "0 \<le> n mod 10" "n mod 10 \<le> 9"
    "2000 + 10 * (n div 10 mod 10) + n mod 10 = n"
proof -
  show "0 \<le> n div 10 mod 10" "0 \<le> n mod 10" by simp_all
  have "n div 10 mod 10 < 10" "n mod 10 < 10" by simp_all
  then show "n div 10 mod 10 \<le> 9" "n mod 10 \<le> 9" by linarith+
  have "2000 div 1000 \<le> n div 1000" using assms(1) by (rule zdiv_mono1) simp
  moreover have "n div 1000 \<le> 2099 div 1000" using assms(2) by (rule zdiv_mono1) simp
  ultimately have k: "n div 1000 = 2" by simp
  then show "n div 1000 mod 10 = 2" by simp
  have "2000 div 100 \<le> n div 100" using assms(1) by (rule zdiv_mono1) simp
  moreover have "n div 100 \<le> 2099 div 100" using assms(2) by (rule zdiv_mono1) simp
  ultimately have h: "n div 100 = 20" by simp
  then show "n div 100 mod 10 = 0" by simp
  have "n div 10 div 10 = n div (10 * 10)" by (simp add: zdiv_zmult2_eq)
  then have "n div 10 div 10 = 20" using h by simp
  moreover have "10 * (n div 10 div 10) + n div 10 mod 10 = n div 10" by simp
  ultimately have "n div 10 = 200 + n div 10 mod 10" by simp
  moreover have "10 * (n div 10) + n mod 10 = n" by simp
  ultimately show "2000 + 10 * (n div 10 mod 10) + n mod 10 = n" by linarith
qed

lemma clean_normal_form:
  assumes "is_digit y3" "is_digit y4" "is_digit mo1" "is_digit mo2" "is_digit da1" "is_digit da2"
    "is_digit ho1" "is_digit ho2" "is_digit mi1" "is_digit mi2" "is_digit se1" "is_digit se2"
  shows "normal_form (clean_text y3 y4 mo1 mo2 da1 da2 ho1 ho2 mi1 mi2 @ [se1, se2])"
  using assms
  by (simp add: normal_form_def clean_text_def clean_ends_def digit_facts sep_facts char_facts
      is_char_def)

lemma clean_repair:
  assumes "is_digit y3" "is_digit y4" "is_digit mo1" "is_digit mo2" "is_digit da1" "is_digit da2"
    "is_digit ho1" "is_digit ho2" "is_digit mi1" "is_digit mi2" "is_digit se1" "is_digit se2"
  shows "triplet_repair_spec (clean_text y3 y4 mo1 mo2 da1 da2 ho1 ho2 mi1 mi2 @ [se1, se2])
         = clean_text y3 y4 mo1 mo2 da1 da2 ho1 ho2 mi1 mi2 @ [se1, se2]"
  using assms
  by (simp add: clean_text_def digit_facts sep_facts)

lemma clean_anchor:
  assumes "is_digit y3" "is_digit y4" "is_digit mo1" "is_digit mo2" "is_digit da1" "is_digit da2"
    "is_digit ho1" "is_digit ho2" "is_digit mi1" "is_digit mi2" "is_digit se1" "is_digit se2"
  shows "stage_anchor (clean_text y3 y4 mo1 mo2 da1 da2 ho1 ho2 mi1 mi2 @ [se1, se2])
         = Inr (fields_result (py_int [CHR ''2'', CHR ''0'', y3, y4]) (py_int [mo1, mo2])
                  (py_int [da1, da2]) (py_int [ho1, ho2]) (py_int [mi1, mi2]) (py_int [se1, se2]))"
proof -
  have d: "re_search DATE_RE (clean_text y3 y4 mo1 mo2 da1 da2 ho1 ho2 mi1 mi2 @ [se1, se2])
         = Some ([[CHR ''2'', CHR ''0'', y3, y4], [mo1, mo2], [da1, da2]],
                 CHR '' '' # ho1 # ho2 # CHR '':'' # mi1 # mi2 # CHR '':'' # [se1, se2])"
    unfolding clean_text_def using date_match[OF assms(1-6)] by simp
  show ?thesis
    unfolding stage_anchor_def d using time_match[OF assms(7-12)] by simp
qed

lemma clean_parse:
  assumes "is_digit y3" "is_digit y4" "is_digit mo1" "is_digit mo2" "is_digit da1" "is_digit da2"
    "is_digit ho1" "is_digit ho2" "is_digit mi1" "is_digit mi2" "is_digit se1" "is_digit se2"
    and "fields_result (py_int [CHR ''2'', CHR ''0'', y3, y4]) (py_int [mo1, mo2])
                  (py_int [da1, da2]) (py_int [ho1, ho2]) (py_int [mi1, mi2]) (py_int [se1, se2])
         = Some res"
  shows "parse_timestamp_flex (clean_text y3 y4 mo1 mo2 da1 da2 ho1 ho2 mi1 mi2 @ [se1, se2])
         = Inr (Some res)"
proof -
  let ?t = "clean_text y3 y4 mo1 mo2 da1 da2 ho1 ho2 mi1 mi2 @ [se1, se2]"
  have ne: "?t \<noteq> []" by (simp add: clean_text_def)
  have n: "normalize_ocr ?t = ?t" using clean_normal_form[OF assms(1-12)] by (rule normal_form_fixed)
  have r: "repair_time_triplets ?t = ?t" unfolding repair_is_spec using assms(1-12) by (rule clean_repair)
  have a: "stage_anchor ?t = Inr (Some res)" using clean_anchor[OF assms(1-12)] assms(13) by simp
  show ?thesis unfolding parse_timestamp_flex_def Let_def n r a using ne by (simp add: or_else_def)
qed

lemma pad2_digits:
  assumes "0 \<le> n" "n \<le> 99"
  shows "\<exists>a b. pad2 n = [a, b] \<and> is_digit a \<and> is_digit b \<and> py_int [a, b] = n"
proof -
  note t = two_digits[OF assms]
  have "is_digit (digit_char (n div 10 mod 10))"
    and "digit_value (digit_char (n div 10 mod 10)) = n div 10 mod 10"
    using digit_char_cases[OF t(1) t(2)] by simp_all
  moreover have "is_digit (digit_char (n mod 10))"
    and "digit_value (digit_char (n mod 10)) = n mod 10"
    using digit_char_cases[OF t(3) t(4)] by simp_all
  ultimately show ?thesis using t(5) by (simp add: pad2_def py_int2)
qed

lemma pad4_digits:
  assumes "2000 \<le> n" "n \<le> 2099"
  shows "\<exists>a b. pad4 n = [CHR ''2'', CHR ''0'', a, b] \<and> is_digit a \<and> is_digit b
           \<and> py_int [CHR ''2'', CHR ''0'', a, b] = n"
proof -
  note t = year_digits[OF assms]
  have "is_digit (digit_char (n div 10 mod 10))"
    and "digit_value (digit_char (n div 10 mod 10)) = n div 10 mod 10"
    using digit_char_cases[OF t(3) t(4)] by simp_all
  moreover have "is_digit (digit_char (n mod 10))"
    and "digit_value (digit_char (n mod 10)) = n mod 10"
    using digit_char_cases[OF t(5) t(6)] by simp_all
  moreover have "digit_char 2 = CHR ''2''" "digit_char 0 = CHR ''0''"
    "digit_value CHR ''2'' = 2" "digit_value CHR ''0'' = 0"
    by (simp_all add: digit_char_def digit_value_def)
  ultimately show ?thesis using t(7) by (simp add: pad4_def py_int4 t(1) t(2))
qed

lemma parse_formatted:
  assumes "valid_datetime Y M D h m s" and "2000 \<le> Y" and "Y \<le> 2099"
  shows "parse_timestamp_flex (format_fields Y M D h m s)
         = Inr (Some (Datetime Y M D h m s, (Y, M, D, h, m, s)))"
proof -
  have b: "0 \<le> M" "M \<le> 99" "0 \<le> D" "D \<le> 99" "0 \<le> h" "h \<le> 99" "0 \<le> m" "m \<le> 99"
    "0 \<le> s" "s \<le> 99"
    using assms(1) by (auto simp: valid_datetime_def days_in_month_def split: if_splits)
  obtain y3 y4 where y: "pad4 Y = [CHR ''2'', CHR ''0'', y3, y4]" "is_digit y3" "is_digit y4"
      "py_int [CHR ''2'', CHR ''0'', y3, y4] = Y"
    using pad4_digits[OF assms(2,3)] by blast
  obtain mo1 mo2 where mo: "pad2 M = [mo1, mo2]" "is_digit mo1" "is_digit mo2" "py_int [mo1, mo2] = M"
    using pad2_digits[OF b(1,2)] by blast
  obtain da1 da2 where da: "pad2 D = [da1, da2]" "is_digit da1" "is_digit da2" "py_int [da1, da2] = D"
    using pad2_digits[OF b(3,4)] by blast
  obtain ho1 ho2 where ho: "pad2 h = [ho1, ho2]" "is_digit ho1" "is_digit ho2" "py_int [ho1, ho2] = h"
    using pad2_digits[OF b(5,6)] by blast
  obtain mi1 mi2 where mi: "pad2 m = [mi1, mi2]" "is_digit mi1" "is_digit mi2" "py_int [mi1, mi2] = m"
    using pad2_digits[OF b(7,8)] by blast
  obtain se1 se2 where se: "pad2 s = [se1, se2]" "is_digit se1" "is_digit se2" "py_int [se1, se2] = s"
    using pad2_digits[OF b(9,10)] by blast
  have f: "format_fields Y M D h m s = clean_text y3 y4 mo1 mo2 da1 da2 ho1 ho2 mi1 mi2 @ [se1, se2]"
    by (simp add: format_fields_def clean_text_def y(1) mo(1) da(1) ho(1) mi(1) se(1))
  have r: "fields_result (py_int [CHR ''2'', CHR ''0'', y3, y4]) (py_int [mo1, mo2])
             (py_int [da1, da2]) (py_int [ho1, ho2]) (py_int [mi1, mi2]) (py_int [se1, se2])
           = Some (Datetime Y M D h m s, (Y, M, D, h, m, s))"
    unfolding y(4) mo(4) da(4) ho(4) mi(4) se(4) using assms(1)
    by (simp add: fields_result_def py_datetime_def)
  show ?thesis
    unfolding f
    using y(2,3) mo(2,3) da(2,3) ho(2,3) mi(2,3) se(2,3) r by (rule clean_parse)
qed

text \<open>
  Claim C2, as stated: every valid date and time is recovered from its text
  \<^verbatim>\<open>YYYY-MM-DD HH:MM:SS\<close>. The last second of 1999 refutes it: every pattern of the
  parser starts the year with \<^verbatim>\<open>20\<close>, and the text has no such year.
\<close>

theorem parse_round_trip_counterexample:
  "valid_datetime 1999 12 31 23 59 59
   \<and> format_fields 1999 12 31 23 59 59 = ''1999-12-31 23:59:59''
   \<and> parse_timestamp_flex ''1999-12-31 23:59:59'' = Inr None"
proof -
  have "valid_datetime 1999 12 31 23 59 59"
    by (simp add: valid_datetime_def days_in_month_def)
  moreover have "format_fields 1999 12 31 23 59 59 = ''1999-12-31 23:59:59''"
    by (simp add: format_fields_def pad4_def pad2_def digit_char_def)
  moreover have "parse_timestamp_flex ''1999-12-31 23:59:59'' = Inr None"
    by code_simp
  ultimately show ?thesis by (intro conjI)
qed

text \<open>
  Claim C2, amended. For every valid date and time with a year from 2000 to 2099,
  \<open>parse_timestamp_flex\<close> applied to the zero padded text \<^verbatim>\<open>YYYY-MM-DD HH:MM:SS\<close>
  returns the date and exactly the six fields.
\<close>

theorem parse_round_trip:
  "valid_datetime Y M D h m s \<Longrightarrow> 2000 \<le> Y \<Longrightarrow> Y \<le> 2099
     \<Longrightarrow> parse_timestamp_flex (format_fields Y M D h m s)
           = Inr (Some (Datetime Y M D h m s, (Y, M, D, h, m, s)))"
  by (rule parse_formatted)

theorem parse_round_trip_witness:
  "valid_datetime 2024 2 29 23 59 7
   \<and> format_fields 2024 2 29 23 59 7 = ''2024-02-29 23:59:07''
   \<and> parse_timestamp_flex ''2024-02-29 23:59:07''
       = Inr (Some (Datetime 2024 2 29 23 59 7, (2024, 2, 29, 23, 59, 7)))"
proof -
  have v: "valid_datetime 2024 2 29 23 59 7"
    by (simp add: valid_datetime_def days_in_month_def is_leap_def)
  have f: "format_fields 2024 2 29 23 59 7 = ''2024-02-29 23:59:07''"
    by (simp add: format_fields_def pad4_def pad2_def digit_char_def)
  have "(2000::int) \<le> 2024" and "(2024::int) \<le> 2099" by simp_all
  from parse_round_trip [OF v this] show ?thesis using v f by simp
qed

end
